theory Spec2Isabelle
  imports Complex_Main "HOL-Library.Log_Nat"
begin

section \<open>The virtual file system (class VirtualFileSystem)\<close>

text \<open>
  The program keeps a tree of JavaScript objects and mutates them in place. The model keeps
  the objects in an explicit store: an object is a value of type \<open>node\<close> at an address, a
  folder's \<open>children\<close> array is a list of addresses, and an in-place write to an object is
  an update of the store at its address. A reference held by the program (the root in
  \<open>this.fileSystem\<close>, the node in \<open>this.clipboard\<close>, a snapshot's \<open>data\<close>) is an address.

  Strings are lists of characters; a character stands for one code unit below 256.
  \<open>Date.now()\<close>, \<open>generateId()\<close>, the answer to \<open>confirm(...)\<close> and the draws of
  \<open>Math.random()\<close> are inputs of the operations. Rendering, logging, toasts and the
  IndexedDB copy of the tree are left out: they never write to the tree.
\<close>

subsection \<open>Data model\<close>

type_synonym addr = nat

record perms =
  perm_owner :: string
  perm_group :: string
  perm_others :: string

text \<open>A node is a folder (it has \<open>children\<close>) or a file (it has \<open>content\<close>); the field
  \<open>type\<close> of the source is the constructor of the body.\<close>

datatype 'c body = Children "'c list" | Content string

record fields =
  n_id :: string
  n_name :: string
  n_owner :: string
  n_permissions :: perms
  n_size :: nat
  n_createdAt :: nat
  n_modifiedAt :: nat
  n_corrupted :: bool

record node = fields +
  n_body :: "addr body"

type_synonym heap = "addr \<Rightarrow> node option"

definition is_folder :: "node \<Rightarrow> bool" where
  "is_folder n = (case n_body n of Children cs \<Rightarrow> True | Content s \<Rightarrow> False)"

datatype action = Copy | Move

record clipboard =
  cb_action :: action
  cb_node :: addr
  cb_sourcePath :: string

record snapshot =
  snap_id :: nat
  snap_timestamp :: nat
  snap_data :: addr

record vfs =
  currentUser :: string
  adminMode :: bool
  currentPath :: string
  selectedItem :: "string option"
  clipboard :: "clipboard option"
  snapshots :: "snapshot list"
  fileSystem :: addr
  heap :: heap
  nextAddr :: addr

text \<open>An in-place write to the object at an address.\<close>

definition modify :: "addr \<Rightarrow> (node \<Rightarrow> node) \<Rightarrow> heap \<Rightarrow> heap" where
  "modify a f h = (case h a of None \<Rightarrow> h | Some n \<Rightarrow> h(a \<mapsto> f n))"

subsection \<open>Permission model\<close>

text \<open>\<open>checkPermission(node, operation)\<close>, reading \<open>this.adminMode\<close> and
  \<open>this.currentUser\<close>.\<close>

definition checkPermission :: "vfs \<Rightarrow> node \<Rightarrow> string \<Rightarrow> bool" where
  "checkPermission st node operation =
     (if adminMode st then True
      else
        let permissions = n_permissions node;
            owner = n_owner node;
            cu = currentUser st;
            permissionSet =
              (if cu = owner then perm_owner permissions
               else if cu = ''admin'' \<or> cu = ''user'' then perm_group permissions
               else perm_others permissions)
        in if operation = ''read'' then CHR ''r'' \<in> set permissionSet
           else if operation = ''write'' then CHR ''w'' \<in> set permissionSet
           else if operation = ''execute'' then CHR ''x'' \<in> set permissionSet
           else False)"

text \<open>The reference definition, in the words of the specification: the admin override,
  the choice of the triple by the relation of the actor to the owner, and the bit of the
  requested operation. The privileged roles are the ones the source names.\<close>

definition privileged_role :: "string \<Rightarrow> bool" where
  "privileged_role actor = (actor = ''admin'' \<or> actor = ''user'')"

definition selected_triple :: "node \<Rightarrow> string \<Rightarrow> string" where
  "selected_triple node actor =
     (if actor = n_owner node then perm_owner (n_permissions node)
      else if privileged_role actor then perm_group (n_permissions node)
      else perm_others (n_permissions node))"

definition operation_bit :: "string \<Rightarrow> char option" where
  "operation_bit operation =
     (if operation = ''read'' then Some (CHR ''r'')
      else if operation = ''write'' then Some (CHR ''w'')
      else if operation = ''execute'' then Some (CHR ''x'')
      else None)"

definition checkPermission_spec :: "node \<Rightarrow> string \<Rightarrow> string \<Rightarrow> bool \<Rightarrow> bool" where
  "checkPermission_spec node operation actor isAdmin =
     (isAdmin \<or>
      (case operation_bit operation of
         None \<Rightarrow> False
       | Some b \<Rightarrow> b \<in> set (selected_triple node actor)))"

subsection \<open>Paths\<close>

text \<open>\<open>s.split(c)\<close> for a one-character separator.\<close>

fun split :: "char \<Rightarrow> string \<Rightarrow> string list" where
  "split c [] = [[]]"
| "split c (x # xs) =
     (if x = c then [] # split c xs
      else (case split c xs of [] \<Rightarrow> [[x]] | p # ps \<Rightarrow> (x # p) # ps))"

text \<open>\<open>parts.join(sep)\<close>.\<close>

fun join :: "string \<Rightarrow> string list \<Rightarrow> string" where
  "join sep [] = []"
| "join sep [p] = p"
| "join sep (p # q # ps) = p @ sep @ join sep (q # ps)"

text \<open>\<open>path.split('/').filter(p => p)\<close>.\<close>

definition path_parts :: "string \<Rightarrow> string list" where
  "path_parts path = filter (\<lambda>p. p \<noteq> []) (split (CHR ''/'') path)"

text \<open>\<open>currentNode.children?.find(c => c.name === part)\<close>: no child for a file.\<close>

definition find_child :: "heap \<Rightarrow> addr \<Rightarrow> string \<Rightarrow> addr option" where
  "find_child h cur part =
     (case h cur of
        None \<Rightarrow> None
      | Some n \<Rightarrow>
          (case n_body n of
             Content s \<Rightarrow> None
           | Children cs \<Rightarrow>
               find (\<lambda>c. case h c of None \<Rightarrow> False | Some cn \<Rightarrow> n_name cn = part) cs))"

fun walk :: "heap \<Rightarrow> addr \<Rightarrow> string list \<Rightarrow> addr option" where
  "walk h cur [] = Some cur"
| "walk h cur (part # parts) =
     (case find_child h cur part of None \<Rightarrow> None | Some child \<Rightarrow> walk h child parts)"

text \<open>\<open>getNodeByPath(path)\<close>: the reference it returns is an address; \<open>None\<close> is
  \<open>null\<close>.\<close>

definition getNodeByPath :: "vfs \<Rightarrow> string \<Rightarrow> addr option" where
  "getNodeByPath st path =
     (if path = ''/'' then Some (fileSystem st)
      else walk (heap st) (fileSystem st) (path_parts path))"

text \<open>The reference together with the object it points to.\<close>

definition nodeByPath :: "vfs \<Rightarrow> string \<Rightarrow> (addr \<times> node) option" where
  "nodeByPath st path =
     (case getNodeByPath st path of
        None \<Rightarrow> None
      | Some a \<Rightarrow> (case heap st a of None \<Rightarrow> None | Some n \<Rightarrow> Some (a, n)))"

subsection \<open>Terminal: cd\<close>

text \<open>The path \<open>terminalCD\<close> resolves its argument to (\<open>newPath\<close>).\<close>

definition cdPath :: "vfs \<Rightarrow> string \<Rightarrow> string" where
  "cdPath st path =
     (if path = ''/'' then ''/''
      else if path = ''..'' then
        (if currentPath st = ''/'' then ''/''
         else ''/'' @ join ''/'' (butlast (path_parts (currentPath st))))
      else if take 1 path = ''/'' then path
      else (if currentPath st = ''/'' then ''/'' @ path else currentPath st @ ''/'' @ path))"

text \<open>\<open>terminalCD(path)\<close>: the response string and the state. The argument is
  \<open>None\<close> when the command line has no argument (\<open>args[1]\<close> is \<open>undefined\<close>).\<close>

definition terminalCD :: "vfs \<Rightarrow> string option \<Rightarrow> string \<times> vfs" where
  "terminalCD st arg =
     (case arg of
        None \<Rightarrow> (''Usage: cd <directory>'', st)
      | Some path \<Rightarrow>
          if path = [] then (''Usage: cd <directory>'', st)
          else
            let newPath = cdPath st path in
            (case nodeByPath st newPath of
               None \<Rightarrow> (''cd: '' @ path @ '': No such directory'', st)
             | Some (a, node) \<Rightarrow>
                 if \<not> is_folder node then (''cd: '' @ path @ '': Not a directory'', st)
                 else if \<not> checkPermission st node ''execute'' then
                   (''cd: '' @ path @ '': Permission denied'', st)
                 else ('''', st\<lparr>currentPath := newPath\<rparr>)))"

text \<open>Whether \<open>terminalCD\<close>'s target exists, is a folder and grants execute.\<close>

definition cd_target_ok :: "vfs \<Rightarrow> string \<Rightarrow> bool" where
  "cd_target_ok st path =
     (case nodeByPath st (cdPath st path) of
        None \<Rightarrow> False
      | Some (a, node) \<Rightarrow> is_folder node \<and> checkPermission st node ''execute'')"

subsection \<open>Results of an operation\<close>

text \<open>The user-interface operations return nothing: they end silently or after a toast.
  \<open>Refused e\<close> is such an early return (the comment at each one quotes the toast),
  \<open>Said s\<close> is the response string of a terminal command, and \<open>Thrown x\<close> is an
  exception that leaves the operation uncaught. The recursions over the tree
  (\<open>updateFolderSize\<close>, \<open>getAllNodes\<close>) have an optional result: \<open>None\<close> means that the
  recursion is unbounded (a folder that is its own descendant). The source then fills the
  call stack, and the operation that made the call ends in \<open>Thrown RangeError\<close> with the
  writes it made before the call. The sizes that the unfinished \<open>updateFolderSize\<close> has
  written by then depend on the depth of the stack and are left out.\<close>

datatype error =
    EmptyName | NameConflict | PermissionDenied | NotFound | NotAFolder | RootProtected
  | NoSelection | NoClipboard | NoSnapshot | Cancelled | NothingToDo

datatype exn = TypeError | RangeError

datatype outcome = Done | Refused error | Said string | Thrown exn

subsection \<open>Nodes and sizes\<close>

datatype ntype = Folder | File

text \<open>\<open>createNode(name, type, owner, permissions)\<close>, with the results of
  \<open>generateId()\<close> and \<open>Date.now()\<close>.\<close>

definition createNode :: "string \<Rightarrow> nat \<Rightarrow> string \<Rightarrow> ntype \<Rightarrow> string \<Rightarrow> perms \<Rightarrow> node" where
  "createNode newId now name type owner permissions =
     \<lparr>n_id = newId, n_name = name, n_owner = owner, n_permissions = permissions,
      n_size = (if type = Folder then 0 else 100),
      n_createdAt = now, n_modifiedAt = now, n_corrupted = False,
      n_body = (if type = Folder then Children [] else Content [])\<rparr>"

text \<open>\<open>calculateSize(content)\<close>: the size of a \<open>Blob\<close> of the string, which is its
  length in UTF-8: one byte for a code unit below 128 and two for the others below 256.\<close>

definition calculateSize :: "string \<Rightarrow> nat" where
  "calculateSize content =
     (if content = [] then 0
      else sum_list (map (\<lambda>c. if (of_char c :: nat) < 128 then 1 else 2) content))"

text \<open>\<open>updateFolderSize(node)\<close>. \<open>sumChildren\<close> is its \<open>for\<close> loop over the children,
  with the recursive call on a folder child; the writes to \<open>size\<close> are in the order of
  the source.\<close>

partial_function (option) sumChildren :: "heap \<Rightarrow> addr list \<Rightarrow> (nat \<times> heap) option" where
  "sumChildren h cs =
     (case cs of
        [] \<Rightarrow> Some (0, h)
      | child # rest \<Rightarrow>
          (case h child of
             None \<Rightarrow> None
           | Some n \<Rightarrow>
               (case n_body n of
                  Content s \<Rightarrow>
                    Option.bind (sumChildren h rest) (\<lambda>(t, h'). Some (n_size n + t, h'))
                | Children gs \<Rightarrow>
                    Option.bind (sumChildren h gs) (\<lambda>(totalSize, h1).
                      Option.bind (sumChildren (modify child (\<lambda>n. n\<lparr>n_size := totalSize\<rparr>) h1) rest)
                        (\<lambda>(t, h'). Some (totalSize + t, h'))))))"

lemma sumChildren_Nil [simp, code]: "sumChildren h [] = Some (0, h)"
  by (subst sumChildren.simps) simp

lemma sumChildren_Cons [simp, code]:
  "sumChildren h (child # rest) =
     (case h child of
        None \<Rightarrow> None
      | Some n \<Rightarrow>
          (case n_body n of
             Content s \<Rightarrow>
               Option.bind (sumChildren h rest) (\<lambda>(t, h'). Some (n_size n + t, h'))
           | Children gs \<Rightarrow>
               Option.bind (sumChildren h gs) (\<lambda>(totalSize, h1).
                 Option.bind (sumChildren (modify child (\<lambda>n. n\<lparr>n_size := totalSize\<rparr>) h1) rest)
                   (\<lambda>(t, h'). Some (totalSize + t, h')))))"
  by (subst sumChildren.simps) simp

definition updateFolderSize :: "heap \<Rightarrow> addr \<Rightarrow> (nat \<times> heap) option" where
  "updateFolderSize h a =
     (case h a of
        None \<Rightarrow> None
      | Some n \<Rightarrow>
          (case n_body n of
             Content s \<Rightarrow> Some (n_size n, h)
           | Children cs \<Rightarrow>
               Option.bind (sumChildren h cs) (\<lambda>(totalSize, h1).
                 Some (totalSize, modify a (\<lambda>n. n\<lparr>n_size := totalSize\<rparr>) h1))))"

text \<open>Whether a folder's stored size is the sum of the stored sizes of its children.\<close>

definition child_sizes :: "heap \<Rightarrow> addr list \<Rightarrow> nat list" where
  "child_sizes h cs = map (\<lambda>c. case h c of None \<Rightarrow> 0 | Some cn \<Rightarrow> n_size cn) cs"

definition folder_size_ok :: "heap \<Rightarrow> addr \<Rightarrow> bool" where
  "folder_size_ok h a =
     (case h a of
        None \<Rightarrow> True
      | Some n \<Rightarrow>
          (case n_body n of
             Content s \<Rightarrow> True
           | Children cs \<Rightarrow> n_size n = sum_list (child_sizes h cs)))"

subsection \<open>Creating files and folders\<close>

definition is_space :: "char \<Rightarrow> bool" where
  "is_space c = ((of_char c :: nat) \<in> {9, 10, 11, 12, 13, 32, 160})"

text \<open>\<open>s.trim()\<close>.\<close>

definition trim :: "string \<Rightarrow> string" where
  "trim s = rev (dropWhile is_space (rev (dropWhile is_space s)))"

text \<open>\<open>children.some(child => child.name === name)\<close>.\<close>

definition has_child_named :: "heap \<Rightarrow> addr list \<Rightarrow> string \<Rightarrow> bool" where
  "has_child_named h cs name =
     list_ex (\<lambda>c. case h c of None \<Rightarrow> False | Some cn \<Rightarrow> n_name cn = name) cs"

text \<open>\<open>dir.children.push(child); dir.modifiedAt = Date.now()\<close>.\<close>

definition push_child :: "addr \<Rightarrow> nat \<Rightarrow> node \<Rightarrow> node" where
  "push_child child now dir =
     dir\<lparr>n_body := (case n_body dir of Children cs \<Rightarrow> Children (cs @ [child]) | Content s \<Rightarrow> Content s),
         n_modifiedAt := now\<rparr>"

definition file_perms :: perms where
  "file_perms = \<lparr>perm_owner = ''rw-'', perm_group = ''r--'', perm_others = ''r--''\<rparr>"

definition folder_perms :: perms where
  "folder_perms = \<lparr>perm_owner = ''rwx'', perm_group = ''r-x'', perm_others = ''r--''\<rparr>"

text \<open>The common end of the creating operations: the new object is allocated, pushed to
  the directory, and \<open>updateFolderSize\<close> runs on that directory.\<close>

definition add_to_dir :: "vfs \<Rightarrow> addr \<Rightarrow> node \<Rightarrow> nat \<Rightarrow> outcome \<Rightarrow> (outcome \<times> vfs) option" where
  "add_to_dir st cur new now result =
     (let a = nextAddr st;
          h1 = (heap st)(a \<mapsto> new);
          h2 = modify cur (push_child a now) h1
      in case updateFolderSize h2 cur of
           None \<Rightarrow> Some (Thrown RangeError, st\<lparr>heap := h2, nextAddr := Suc a\<rparr>)
         | Some (totalSize, h3) \<Rightarrow> Some (result, st\<lparr>heap := h3, nextAddr := Suc a\<rparr>))"

text \<open>\<open>createNewFile()\<close>, with the two fields of the dialog as arguments.\<close>

definition createNewFile :: "vfs \<Rightarrow> string \<Rightarrow> nat \<Rightarrow> string \<Rightarrow> string \<Rightarrow> (outcome \<times> vfs) option" where
  "createNewFile st newId now fileName content =
     (let name = trim fileName in
      if name = [] then Some (Refused EmptyName, st)  \<comment> \<open>File name cannot be empty\<close>
      else
        (case nodeByPath st (currentPath st) of
           None \<Rightarrow> Some (Thrown TypeError, st)  \<comment> \<open>\<open>currentDir\<close> is \<open>null\<close>\<close>
         | Some (cur, currentDir) \<Rightarrow>
             (case n_body currentDir of
                Content s \<Rightarrow> Some (Thrown TypeError, st)  \<comment> \<open>\<open>children\<close> is \<open>undefined\<close>\<close>
              | Children cs \<Rightarrow>
                  if has_child_named (heap st) cs name then
                    Some (Refused NameConflict, st)  \<comment> \<open>File ... already exists\<close>
                  else if \<not> checkPermission st currentDir ''write'' then
                    Some (Refused PermissionDenied, st)  \<comment> \<open>Permission denied: Cannot create file\<close>
                  else
                    let file = createNode newId now name File (currentUser st) file_perms;
                        file' = (if content \<noteq> [] then
                                   file\<lparr>n_size := calculateSize content, n_body := Content content\<rparr>
                                 else file)
                    in add_to_dir st cur file' now Done)))"

text \<open>\<open>createNewFolder()\<close>.\<close>

definition createNewFolder :: "vfs \<Rightarrow> string \<Rightarrow> nat \<Rightarrow> string \<Rightarrow> (outcome \<times> vfs) option" where
  "createNewFolder st newId now folderName =
     (let name = trim folderName in
      if name = [] then Some (Refused EmptyName, st)  \<comment> \<open>Folder name cannot be empty\<close>
      else
        (case nodeByPath st (currentPath st) of
           None \<Rightarrow> Some (Thrown TypeError, st)
         | Some (cur, currentDir) \<Rightarrow>
             (case n_body currentDir of
                Content s \<Rightarrow> Some (Thrown TypeError, st)
              | Children cs \<Rightarrow>
                  if has_child_named (heap st) cs name then
                    Some (Refused NameConflict, st)  \<comment> \<open>Folder ... already exists\<close>
                  else if \<not> checkPermission st currentDir ''write'' then
                    Some (Refused PermissionDenied, st)  \<comment> \<open>Permission denied: Cannot create folder\<close>
                  else
                    add_to_dir st cur
                      (createNode newId now name Folder (currentUser st) folder_perms) now Done)))"

text \<open>\<open>terminalMKDIR(path)\<close>: the permission check comes first; it throws on a
  \<open>null\<close> directory (also under the admin override, at \<open>currentDir.children\<close>).\<close>

definition terminalMKDIR :: "vfs \<Rightarrow> string \<Rightarrow> nat \<Rightarrow> string option \<Rightarrow> (outcome \<times> vfs) option" where
  "terminalMKDIR st newId now arg =
     (case arg of
        None \<Rightarrow> Some (Said ''Usage: mkdir <directory>'', st)
      | Some path \<Rightarrow>
          if path = [] then Some (Said ''Usage: mkdir <directory>'', st)
          else
            (case nodeByPath st (currentPath st) of
               None \<Rightarrow> Some (Thrown TypeError, st)
             | Some (cur, currentDir) \<Rightarrow>
                 if \<not> checkPermission st currentDir ''write'' then
                   Some (Said ''mkdir: Permission denied'', st)
                 else
                   (case n_body currentDir of
                      Content s \<Rightarrow> Some (Thrown TypeError, st)
                    | Children cs \<Rightarrow>
                        if has_child_named (heap st) cs path then
                          Some (Said (''mkdir: '' @ path @ '': File exists''), st)
                        else
                          add_to_dir st cur
                            (createNode newId now path Folder (currentUser st) folder_perms)
                            now (Said []))))"

text \<open>\<open>terminalTOUCH(path)\<close>: an existing child of that name gets a new modification
  time; otherwise a file is created by \<open>createNode\<close> and keeps the size it gives.\<close>

definition terminalTOUCH :: "vfs \<Rightarrow> string \<Rightarrow> nat \<Rightarrow> string option \<Rightarrow> (outcome \<times> vfs) option" where
  "terminalTOUCH st newId now arg =
     (case arg of
        None \<Rightarrow> Some (Said ''Usage: touch <file>'', st)
      | Some path \<Rightarrow>
          if path = [] then Some (Said ''Usage: touch <file>'', st)
          else
            (case nodeByPath st (currentPath st) of
               None \<Rightarrow> Some (Thrown TypeError, st)
             | Some (cur, currentDir) \<Rightarrow>
                 if \<not> checkPermission st currentDir ''write'' then
                   Some (Said ''touch: Permission denied'', st)
                 else
                   (case n_body currentDir of
                      Content s \<Rightarrow> Some (Thrown TypeError, st)
                    | Children cs \<Rightarrow>
                        (case find (\<lambda>c. case heap st c of None \<Rightarrow> False
                                           | Some cn \<Rightarrow> n_name cn = path) cs of
                           Some existingFile \<Rightarrow>
                             Some (Said [],
                               st\<lparr>heap := modify existingFile (\<lambda>n. n\<lparr>n_modifiedAt := now\<rparr>) (heap st)\<rparr>)
                         | None \<Rightarrow>
                             add_to_dir st cur
                               (createNode newId now path File (currentUser st) file_perms)
                               now (Said [])))))"

subsection \<open>Renaming and deleting\<close>

text \<open>\<open>s.lastIndexOf(c)\<close>; \<open>None\<close> is \<open>-1\<close>.\<close>

fun lastIndexOf :: "char \<Rightarrow> string \<Rightarrow> nat option" where
  "lastIndexOf c [] = None"
| "lastIndexOf c (x # xs) =
     (case lastIndexOf c xs of
        Some i \<Rightarrow> Some (Suc i)
      | None \<Rightarrow> (if x = c then Some 0 else None))"

text \<open>\<open>path.substring(0, path.lastIndexOf('/'))\<close>.\<close>

definition parentPath :: "string \<Rightarrow> string" where
  "parentPath path = (case lastIndexOf (CHR ''/'') path of None \<Rightarrow> [] | Some i \<Rightarrow> take i path)"

text \<open>\<open>xs.findIndex(P)\<close>; \<open>None\<close> is \<open>-1\<close>. \<open>remove_at\<close> is
  \<open>xs.splice(index, 1)\<close>.\<close>

fun findIndex :: "('a \<Rightarrow> bool) \<Rightarrow> 'a list \<Rightarrow> nat option" where
  "findIndex P [] = None"
| "findIndex P (x # xs) = (if P x then Some 0 else map_option Suc (findIndex P xs))"

text \<open>\<open>children.findIndex(child => child.id === id)\<close>.\<close>

definition findIndexById :: "heap \<Rightarrow> addr list \<Rightarrow> string \<Rightarrow> nat option" where
  "findIndexById h cs ident =
     findIndex (\<lambda>c. case h c of None \<Rightarrow> False | Some cn \<Rightarrow> n_id cn = ident) cs"

definition remove_at :: "nat \<Rightarrow> 'a list \<Rightarrow> 'a list" where
  "remove_at i xs = take i xs @ drop (Suc i) xs"

definition splice_child :: "nat \<Rightarrow> nat \<Rightarrow> node \<Rightarrow> node" where
  "splice_child index now dir =
     dir\<lparr>n_body := (case n_body dir of Children cs \<Rightarrow> Children (remove_at index cs) | Content s \<Rightarrow> Content s),
         n_modifiedAt := now\<rparr>"

text \<open>\<open>renameSelectedItem()\<close>, with the field of the dialog as argument. The node and
  its parent are found from \<open>this.selectedItem\<close>; there is no check for the root.\<close>

definition renameSelectedItem :: "vfs \<Rightarrow> nat \<Rightarrow> string \<Rightarrow> outcome \<times> vfs" where
  "renameSelectedItem st now renameName =
     (let newName = trim renameName in
      if newName = [] then (Refused EmptyName, st)  \<comment> \<open>Name cannot be empty\<close>
      else
        (case selectedItem st of
           None \<Rightarrow> (Refused NoSelection, st)
         | Some sel \<Rightarrow>
             if sel = [] then (Refused NoSelection, st)
             else
               (case (nodeByPath st sel, nodeByPath st (parentPath sel)) of
                  (Some (a, node), Some (p, parent)) \<Rightarrow>
                    if \<not> checkPermission st node ''write'' then
                      (Refused PermissionDenied, st)  \<comment> \<open>Permission denied: Cannot rename this item\<close>
                    else
                      (case n_body parent of
                         Content s \<Rightarrow> (Thrown TypeError, st)
                       | Children cs \<Rightarrow>
                           if list_ex (\<lambda>c. case heap st c of None \<Rightarrow> False
                                | Some child \<Rightarrow> n_name child = newName \<and> n_id child \<noteq> n_id node) cs
                           then (Refused NameConflict, st)  \<comment> \<open>... already exists in this directory\<close>
                           else
                             (Done, st\<lparr>heap := modify a (\<lambda>n. n\<lparr>n_name := newName, n_modifiedAt := now\<rparr>)
                                                (heap st)\<rparr>))
                | _ \<Rightarrow> (Refused NotFound, st))))"

text \<open>\<open>deleteItem(path)\<close>, with the answer to the confirmation dialog.\<close>

definition deleteItem :: "vfs \<Rightarrow> nat \<Rightarrow> bool \<Rightarrow> string \<Rightarrow> (outcome \<times> vfs) option" where
  "deleteItem st now confirmed path =
     (case nodeByPath st path of
        None \<Rightarrow> Some (Refused NotFound, st)
      | Some (a, node) \<Rightarrow>
          if n_id node = ''root'' then
            Some (Refused RootProtected, st)  \<comment> \<open>Cannot delete root directory\<close>
          else
            (case nodeByPath st (parentPath path) of
               None \<Rightarrow> Some (Refused PermissionDenied, st)
             | Some (p, parent) \<Rightarrow>
                 if \<not> checkPermission st parent ''write'' then
                   Some (Refused PermissionDenied, st)  \<comment> \<open>Permission denied: Cannot delete this item\<close>
                 else if \<not> confirmed then Some (Refused Cancelled, st)
                 else
                   (case n_body parent of
                      Content s \<Rightarrow> Some (Thrown TypeError, st)
                    | Children cs \<Rightarrow>
                        (case findIndexById (heap st) cs (n_id node) of
                           Some index \<Rightarrow>
                             (case updateFolderSize (modify p (splice_child index now) (heap st)) p of
                                None \<Rightarrow>
                                  Some (Thrown RangeError,
                                    st\<lparr>heap := modify p (splice_child index now) (heap st)\<rparr>)
                              | Some (totalSize, h') \<Rightarrow>
                                  Some (Done, st\<lparr>heap := h', selectedItem := None\<rparr>))
                         | None \<Rightarrow> Some (Refused NothingToDo, st)))))"

text \<open>The path a terminal command resolves a file argument to.\<close>

definition terminalPath :: "vfs \<Rightarrow> string \<Rightarrow> string" where
  "terminalPath st path =
     (if take 1 path = ''/'' then path
      else (if currentPath st = ''/'' then ''/'' @ path else currentPath st @ ''/'' @ path))"

text \<open>\<open>terminalRM(path)\<close>: no check for the root.\<close>

definition terminalRM :: "vfs \<Rightarrow> nat \<Rightarrow> string option \<Rightarrow> (outcome \<times> vfs) option" where
  "terminalRM st now arg =
     (case arg of
        None \<Rightarrow> Some (Said ''Usage: rm <file>'', st)
      | Some path \<Rightarrow>
          if path = [] then Some (Said ''Usage: rm <file>'', st)
          else
            let filePath = terminalPath st path in
            (case nodeByPath st filePath of
               None \<Rightarrow> Some (Said (''rm: '' @ path @ '': No such file or directory''), st)
             | Some (a, node) \<Rightarrow>
                 (case nodeByPath st (parentPath filePath) of
                    None \<Rightarrow> Some (Said (''rm: '' @ path @ '': Permission denied''), st)
                  | Some (p, parent) \<Rightarrow>
                      if \<not> checkPermission st parent ''write'' then
                        Some (Said (''rm: '' @ path @ '': Permission denied''), st)
                      else
                        (case n_body parent of
                           Content s \<Rightarrow> Some (Thrown TypeError, st)
                         | Children cs \<Rightarrow>
                             (case findIndexById (heap st) cs (n_id node) of
                                Some index \<Rightarrow>
                                  (case updateFolderSize (modify p (splice_child index now) (heap st)) p of
                                     None \<Rightarrow>
                                       Some (Thrown RangeError,
                                         st\<lparr>heap := modify p (splice_child index now) (heap st)\<rparr>)
                                   | Some (totalSize, h') \<Rightarrow> Some (Said [], st\<lparr>heap := h'\<rparr>))
                              | None \<Rightarrow>
                                  Some (Said (''rm: '' @ path @ '': Cannot remove''), st))))))"

subsection \<open>Deep copies through JSON\<close>

text \<open>\<open>JSON.parse(JSON.stringify(node))\<close>. The JSON text of a node is a tree value:
  the fields of the object and, for a folder, the JSON of its children. \<open>stringify\<close>
  reads it off the store; it has no result (the source throws) on a cyclic structure.
  \<open>parse\<close> builds new objects: it allocates every node of the tree at the next free
  address.\<close>

datatype json = JNode fields "json body"

definition fields_of :: "node \<Rightarrow> fields" where
  "fields_of n = \<lparr>n_id = n_id n, n_name = n_name n, n_owner = n_owner n,
     n_permissions = n_permissions n, n_size = n_size n, n_createdAt = n_createdAt n,
     n_modifiedAt = n_modifiedAt n, n_corrupted = n_corrupted n\<rparr>"

definition node_of :: "fields \<Rightarrow> addr body \<Rightarrow> node" where
  "node_of f b = \<lparr>n_id = n_id f, n_name = n_name f, n_owner = n_owner f,
     n_permissions = n_permissions f, n_size = n_size f, n_createdAt = n_createdAt f,
     n_modifiedAt = n_modifiedAt f, n_corrupted = n_corrupted f, n_body = b\<rparr>"

partial_function (option) stringifyAll :: "heap \<Rightarrow> addr list \<Rightarrow> json list option" where
  "stringifyAll h as =
     (case as of
        [] \<Rightarrow> Some []
      | a # rest \<Rightarrow>
          (case h a of
             None \<Rightarrow> None
           | Some n \<Rightarrow>
               (case n_body n of
                  Content s \<Rightarrow>
                    Option.bind (stringifyAll h rest)
                      (\<lambda>js. Some (JNode (fields_of n) (Content s) # js))
                | Children cs \<Rightarrow>
                    Option.bind (stringifyAll h cs) (\<lambda>ks.
                      Option.bind (stringifyAll h rest) (\<lambda>js.
                        Some (JNode (fields_of n) (Children ks) # js))))))"

lemma stringifyAll_Nil [simp, code]: "stringifyAll h [] = Some []"
  by (subst stringifyAll.simps) simp

lemma stringifyAll_Cons [simp, code]:
  "stringifyAll h (a # rest) =
     (case h a of
        None \<Rightarrow> None
      | Some n \<Rightarrow>
          (case n_body n of
             Content s \<Rightarrow>
               Option.bind (stringifyAll h rest)
                 (\<lambda>js. Some (JNode (fields_of n) (Content s) # js))
           | Children cs \<Rightarrow>
               Option.bind (stringifyAll h cs) (\<lambda>ks.
                 Option.bind (stringifyAll h rest) (\<lambda>js.
                   Some (JNode (fields_of n) (Children ks) # js)))))"
  by (subst stringifyAll.simps) simp

definition stringify :: "heap \<Rightarrow> addr \<Rightarrow> json option" where
  "stringify h a = (case stringifyAll h [a] of Some [j] \<Rightarrow> Some j | _ \<Rightarrow> None)"

fun parse :: "json \<Rightarrow> heap \<times> addr \<Rightarrow> addr \<times> heap \<times> addr"
  and parseAll :: "json list \<Rightarrow> heap \<times> addr \<Rightarrow> addr list \<times> heap \<times> addr" where
  "parse (JNode f (Content s)) (h, n) = (n, h(n \<mapsto> node_of f (Content s)), Suc n)"
| "parse (JNode f (Children js)) (h, n) =
     (case parseAll js (h, Suc n) of
        (cs, h', n') \<Rightarrow> (n, h'(n \<mapsto> node_of f (Children cs)), n'))"
| "parseAll [] (h, n) = ([], h, n)"
| "parseAll (j # js) (h, n) =
     (case parse j (h, n) of
        (c, h', n') \<Rightarrow> (case parseAll js (h', n') of (cs, h'', n'') \<Rightarrow> (c # cs, h'', n'')))"

subsection \<open>Snapshots\<close>

text \<open>\<open>createSnapshot()\<close>: the copy of the tree goes to the front of the list, and
  the last one is dropped when there are more than five.\<close>

definition createSnapshot :: "vfs \<Rightarrow> nat \<Rightarrow> outcome \<times> vfs" where
  "createSnapshot st now =
     (case stringify (heap st) (fileSystem st) of
        None \<Rightarrow> (Thrown TypeError, st)
      | Some j \<Rightarrow>
          (case parse j (heap st, nextAddr st) of
             (d, h', n') \<Rightarrow>
               let snapshot = \<lparr>snap_id = now, snap_timestamp = now, snap_data = d\<rparr>;
                   unshifted = snapshot # snapshots st;
                   kept = (if length unshifted > 5 then butlast unshifted else unshifted)
               in (Done, st\<lparr>snapshots := kept, heap := h', nextAddr := n'\<rparr>)))"

text \<open>\<open>restoreSnapshot()\<close>, with the answer to the confirmation dialog.\<close>

definition restoreSnapshot :: "vfs \<Rightarrow> bool \<Rightarrow> outcome \<times> vfs" where
  "restoreSnapshot st confirmed =
     (case snapshots st of
        [] \<Rightarrow> (Refused NoSnapshot, st)  \<comment> \<open>No snapshots available\<close>
      | snapshot # older \<Rightarrow>
          if confirmed then
            (case stringify (heap st) (snap_data snapshot) of
               None \<Rightarrow> (Thrown TypeError, st)
             | Some j \<Rightarrow>
                 (case parse j (heap st, nextAddr st) of
                    (r, h', n') \<Rightarrow> (Done, st\<lparr>fileSystem := r, heap := h', nextAddr := n'\<rparr>)))
          else (Refused Cancelled, st))"

subsection \<open>Unique names\<close>

definition digit_char :: "nat \<Rightarrow> char" where
  "digit_char d = char_of (48 + d)"

text \<open>The decimal digits of a counter, as the template literal prints it.\<close>

fun show_nat :: "nat \<Rightarrow> string" where
  "show_nat n =
     (if n < 10 then [digit_char n] else show_nat (n div 10) @ [digit_char (n mod 10)])"

declare show_nat.simps [simp del]

text \<open>The name the loop of \<open>generateUniqueName\<close> builds for a counter.\<close>

definition candidate :: "string \<Rightarrow> nat \<Rightarrow> string" where
  "candidate baseName counter =
     (case lastIndexOf (CHR ''.'') baseName of
        Some dotIndex \<Rightarrow>
          take dotIndex baseName @ '' ('' @ show_nat counter @ '')'' @ drop dotIndex baseName
      | None \<Rightarrow> baseName @ '' ('' @ show_nat counter @ '')'')"

text \<open>The names of the children of the folder at an address.\<close>

definition child_names :: "heap \<Rightarrow> addr \<Rightarrow> string list" where
  "child_names h d =
     (case h d of
        None \<Rightarrow> []
      | Some n \<Rightarrow>
          (case n_body n of
             Content s \<Rightarrow> []
           | Children cs \<Rightarrow> List.map_filter (\<lambda>c. map_option n_name (h c)) cs))"

lemma digit_char_inj: "a < 10 \<Longrightarrow> b < 10 \<Longrightarrow> digit_char a = digit_char b \<Longrightarrow> a = b"
proof -
  assume a: "a < 10" and b: "b < 10" and e: "digit_char a = digit_char b"
  from e have "of_char (digit_char a) = (of_char (digit_char b) :: nat)" by simp
  then have "(48 + a) mod 256 = (48 + b) mod 256" by (simp add: digit_char_def)
  with a b show "a = b" by simp
qed

lemma show_nat_nonempty: "show_nat n \<noteq> []"
  by (subst show_nat.simps) simp

lemma show_nat_inj: "show_nat n = show_nat m \<Longrightarrow> n = m"
proof (induction n arbitrary: m rule: show_nat.induct)
  case (1 n)
  show ?case
  proof (cases "n < 10")
    case True
    then have n: "show_nat n = [digit_char n]" by (subst show_nat.simps) simp
    show ?thesis
    proof (cases "m < 10")
      case m: True
      then have "show_nat m = [digit_char m]" by (subst show_nat.simps) simp
      with n 1(2) True m show ?thesis by (auto dest: digit_char_inj)
    next
      case False
      then have "show_nat m = show_nat (m div 10) @ [digit_char (m mod 10)]"
        by (subst show_nat.simps) simp
      with n 1(2) show_nat_nonempty[of "m div 10"] show ?thesis by auto
    qed
  next
    case False
    then have n: "show_nat n = show_nat (n div 10) @ [digit_char (n mod 10)]"
      by (subst show_nat.simps) simp
    show ?thesis
    proof (cases "m < 10")
      case True
      then have "show_nat m = [digit_char m]" by (subst show_nat.simps) simp
      with n 1(2) show_nat_nonempty[of "n div 10"] show ?thesis by auto
    next
      case m: False
      then have "show_nat m = show_nat (m div 10) @ [digit_char (m mod 10)]"
        by (subst show_nat.simps) simp
      with n 1(2) have e: "show_nat (n div 10) = show_nat (m div 10)"
        and d: "digit_char (n mod 10) = digit_char (m mod 10)" by auto
      from 1(1)[OF False e] have "n div 10 = m div 10" .
      moreover from d have "n mod 10 = m mod 10" by (auto dest!: digit_char_inj[rotated 2])
      ultimately show ?thesis by (metis div_mult_mod_eq)
    qed
  qed
qed

lemma candidate_inj: "candidate b k = candidate b k' \<Longrightarrow> k = k'"
  by (auto simp: candidate_def split: option.splits dest: show_nat_inj)

lemma inj_candidate: "inj (candidate b)"
  by (rule injI) (rule candidate_inj)

lemma finite_taken: "finite {k. candidate b k \<in> set names}"
proof -
  have "{k. candidate b k \<in> set names} = candidate b -` set names" by auto
  then show ?thesis using finite_vimageI[OF finite_set inj_candidate] by metis
qed

text \<open>The \<open>while\<close> loop of \<open>generateUniqueName\<close>: \<open>name\<close> is the name under test and
  \<open>counter\<close> the next counter. It ends because the names it builds differ from each other and
  the folder has finitely many children.\<close>

function uniqueLoop :: "string list \<Rightarrow> string \<Rightarrow> string \<Rightarrow> nat \<Rightarrow> string" where
  "uniqueLoop names baseName name counter =
     (if name \<in> set names then uniqueLoop names baseName (candidate baseName counter) (counter + 1)
      else name)"
  by pat_completeness auto
termination
proof (relation "measure (\<lambda>(names, baseName, name, counter).
    card {k. counter \<le> k \<and> candidate baseName k \<in> set names} + (if name \<in> set names then 1 else 0))")
  show "wf (measure (\<lambda>(names, baseName, name, counter).
    card {k. counter \<le> k \<and> candidate baseName k \<in> set names} + (if name \<in> set names then 1 else 0)))"
    by simp
next
  fix names :: "string list" and baseName name :: string and counter :: nat
  assume "name \<in> set names"
  let ?S = "\<lambda>c. {k. c \<le> k \<and> candidate baseName k \<in> set names}"
  have fin: "finite (?S counter)" using finite_taken[of baseName names] by simp
  have sub: "?S (counter + 1) \<subseteq> ?S counter" by auto
  show "((names, baseName, candidate baseName counter, counter + 1), (names, baseName, name, counter))
       \<in> measure (\<lambda>(names, baseName, name, counter).
    card {k. counter \<le> k \<and> candidate baseName k \<in> set names} + (if name \<in> set names then 1 else 0))"
  proof (cases "candidate baseName counter \<in> set names")
    case True
    then have "counter \<in> ?S counter" "counter \<notin> ?S (counter + 1)" by auto
    then have "?S (counter + 1) \<subset> ?S counter" using sub by blast
    then have "card (?S (counter + 1)) < card (?S counter)" using fin by (rule psubset_card_mono[rotated])
    with True \<open>name \<in> set names\<close> show ?thesis by simp
  next
    case False
    have "card (?S (counter + 1)) \<le> card (?S counter)" using fin sub by (rule card_mono)
    with False \<open>name \<in> set names\<close> show ?thesis by simp
  qed
qed

declare uniqueLoop.simps [simp del]

text \<open>\<open>generateUniqueName(destNode, baseName)\<close>.\<close>

definition generateUniqueName :: "heap \<Rightarrow> addr \<Rightarrow> string \<Rightarrow> string" where
  "generateUniqueName h destNode baseName = uniqueLoop (child_names h destNode) baseName baseName 1"

subsection \<open>Clipboard: copy, move and paste\<close>

text \<open>\<open>copyItem(path)\<close>: the clipboard holds a deep copy of the node.\<close>

definition copyItem :: "vfs \<Rightarrow> string \<Rightarrow> outcome \<times> vfs" where
  "copyItem st path =
     (case nodeByPath st path of
        None \<Rightarrow> (Refused NotFound, st)
      | Some (a, node) \<Rightarrow>
          if \<not> checkPermission st node ''read'' then
            (Refused PermissionDenied, st)  \<comment> \<open>Permission denied: Cannot copy this item\<close>
          else
            (case stringify (heap st) a of
               None \<Rightarrow> (Thrown TypeError, st)
             | Some j \<Rightarrow>
                 (case parse j (heap st, nextAddr st) of
                    (c, h', n') \<Rightarrow>
                      (Done, st\<lparr>clipboard := Some \<lparr>cb_action = Copy, cb_node = c, cb_sourcePath = path\<rparr>,
                                heap := h', nextAddr := n'\<rparr>))))"

text \<open>\<open>moveItem(path)\<close>: the clipboard holds the node itself.\<close>

definition moveItem :: "vfs \<Rightarrow> string \<Rightarrow> outcome \<times> vfs" where
  "moveItem st path =
     (case nodeByPath st path of
        None \<Rightarrow> (Refused NotFound, st)
      | Some (a, node) \<Rightarrow>
          (case nodeByPath st (parentPath path) of
             None \<Rightarrow> (Refused PermissionDenied, st)
           | Some (p, parent) \<Rightarrow>
               if \<not> checkPermission st parent ''write'' then
                 (Refused PermissionDenied, st)  \<comment> \<open>Permission denied: Cannot move this item\<close>
               else
                 (Done, st\<lparr>clipboard := Some \<lparr>cb_action = Move, cb_node = a, cb_sourcePath = path\<rparr>\<rparr>)))"

text \<open>The copy branch of \<open>pasteItem\<close>: a second deep copy gets a new id and a name that
  is unique in the destination, is pushed to the destination, and \<open>updateFolderSize\<close>
  runs on the destination.\<close>

definition pasteCopy :: "vfs \<Rightarrow> clipboard \<Rightarrow> addr \<Rightarrow> string \<Rightarrow> nat \<Rightarrow> (outcome \<times> vfs) option" where
  "pasteCopy st cb destNode newId now =
     (case stringify (heap st) (cb_node cb) of
        None \<Rightarrow> Some (Thrown TypeError, st)
      | Some j \<Rightarrow>
          (case parse j (heap st, nextAddr st) of
             (newNode, h1, n1) \<Rightarrow>
               let h2 = modify newNode (\<lambda>n. n\<lparr>n_id := newId\<rparr>) h1;
                   h3 = modify newNode (\<lambda>n. n\<lparr>n_name := generateUniqueName h2 destNode (n_name n)\<rparr>) h2;
                   h4 = modify destNode (push_child newNode now) h3
               in (case updateFolderSize h4 destNode of
                     None \<Rightarrow> Some (Thrown RangeError, st\<lparr>heap := h4, nextAddr := n1\<rparr>)
                   | Some (totalSize, h5) \<Rightarrow>
                       Some (Done, st\<lparr>heap := h5, nextAddr := n1, clipboard := None\<rparr>))))"

text \<open>The first half of the move branch: the node is taken out of the parent that the
  source path names, when that parent exists and has a child with the node's id. The
  result is the exception that ends the branch, if any, and the store at that point.\<close>

definition detachSource :: "vfs \<Rightarrow> clipboard \<Rightarrow> nat \<Rightarrow> exn option \<times> heap" where
  "detachSource st cb now =
     (case nodeByPath st (parentPath (cb_sourcePath cb)) of
        None \<Rightarrow> (None, heap st)
      | Some (sp, sourceParent) \<Rightarrow>
          (case n_body sourceParent of
             Content s \<Rightarrow> (Some TypeError, heap st)  \<comment> \<open>\<open>children\<close> is \<open>undefined\<close>\<close>
           | Children cs \<Rightarrow>
               (case heap st (cb_node cb) of
                  None \<Rightarrow> (Some TypeError, heap st)
                | Some node \<Rightarrow>
                    (case findIndexById (heap st) cs (n_id node) of
                       None \<Rightarrow> (None, heap st)
                     | Some index \<Rightarrow>
                         let h1 = modify sp (splice_child index now) (heap st) in
                         (case updateFolderSize h1 sp of
                            None \<Rightarrow> (Some RangeError, h1)
                          | Some (totalSize, h') \<Rightarrow> (None, h'))))))"

text \<open>The move branch of \<open>pasteItem\<close>: the node in the clipboard, the object itself,
  gets a name that is unique in the destination and is pushed to the destination.\<close>

definition pasteMove :: "vfs \<Rightarrow> clipboard \<Rightarrow> addr \<Rightarrow> string \<Rightarrow> nat \<Rightarrow> (outcome \<times> vfs) option" where
  "pasteMove st cb destNode destinationPath now =
     (case detachSource st cb now of
        (Some e, h) \<Rightarrow> Some (Thrown e, st\<lparr>heap := h\<rparr>)
      | (None, h1) \<Rightarrow>
          let node = cb_node cb;
              h2 = modify node (\<lambda>n. n\<lparr>n_name := generateUniqueName h1 destNode (n_name n)\<rparr>) h1;
              h3 = modify destNode (push_child node now) h2
          in (case updateFolderSize h3 destNode of
                None \<Rightarrow> Some (Thrown RangeError, st\<lparr>heap := h3\<rparr>)
              | Some (totalSize, h4) \<Rightarrow>
                  let newName = (case h4 node of None \<Rightarrow> [] | Some n \<Rightarrow> n_name n);
                      sel = (if selectedItem st = Some (cb_sourcePath cb)
                             then Some (destinationPath @ ''/'' @ newName) else selectedItem st)
                  in Some (Done, st\<lparr>heap := h4, selectedItem := sel, clipboard := None\<rparr>)))"

text \<open>\<open>pasteItem(destinationPath)\<close>.\<close>

definition pasteItem :: "vfs \<Rightarrow> string \<Rightarrow> nat \<Rightarrow> string \<Rightarrow> (outcome \<times> vfs) option" where
  "pasteItem st newId now destinationPath =
     (case clipboard st of
        None \<Rightarrow> Some (Refused NoClipboard, st)
      | Some cb \<Rightarrow>
          (case nodeByPath st destinationPath of
             None \<Rightarrow> Some (Refused NotFound, st)
           | Some (d, destNode) \<Rightarrow>
               if \<not> is_folder destNode then Some (Refused NotAFolder, st)
               else if \<not> checkPermission st destNode ''write'' then
                 Some (Refused PermissionDenied, st)  \<comment> \<open>Permission denied: Cannot paste to this directory\<close>
               else
                 (case cb_action cb of
                    Copy \<Rightarrow> pasteCopy st cb d newId now
                  | Move \<Rightarrow> pasteMove st cb d destinationPath now)))"

subsection \<open>Corruption\<close>

text \<open>\<open>getAllNodes(node)\<close>: the node, then the nodes below each child, in order.\<close>

partial_function (option) getAllNodesOf :: "heap \<Rightarrow> addr list \<Rightarrow> addr list option" where
  "getAllNodesOf h as =
     (case as of
        [] \<Rightarrow> Some []
      | a # rest \<Rightarrow>
          (case h a of
             None \<Rightarrow> None
           | Some n \<Rightarrow>
               (case n_body n of
                  Content s \<Rightarrow> Option.bind (getAllNodesOf h rest) (\<lambda>ys. Some (a # ys))
                | Children cs \<Rightarrow>
                    Option.bind (getAllNodesOf h cs) (\<lambda>xs.
                      Option.bind (getAllNodesOf h rest) (\<lambda>ys. Some (a # xs @ ys))))))"

lemma getAllNodesOf_Nil [simp, code]: "getAllNodesOf h [] = Some []"
  by (subst getAllNodesOf.simps) simp

lemma getAllNodesOf_Cons [simp, code]:
  "getAllNodesOf h (a # rest) =
     (case h a of
        None \<Rightarrow> None
      | Some n \<Rightarrow>
          (case n_body n of
             Content s \<Rightarrow> Option.bind (getAllNodesOf h rest) (\<lambda>ys. Some (a # ys))
           | Children cs \<Rightarrow>
               Option.bind (getAllNodesOf h cs) (\<lambda>xs.
                 Option.bind (getAllNodesOf h rest) (\<lambda>ys. Some (a # xs @ ys)))))"
  by (subst getAllNodesOf.simps) simp

definition getAllNodes :: "heap \<Rightarrow> addr \<Rightarrow> addr list option" where
  "getAllNodes h a = getAllNodesOf h [a]"

text \<open>Numbers are IEEE 754 doubles. A finite double is held as the rational number it
  denotes, and an operation gives the exact result rounded to the nearest double, ties to
  the even significand. \<open>binade x\<close> is the exponent \<open>e\<close> with \<open>2^e \<le> x < 2^(e+1)\<close>, and
  \<open>quantum x\<close> is the spacing of the doubles there, subnormal ones included. No number of
  \<open>corruptRandomItems\<close> reaches the overflow threshold, which is left out.\<close>

definition round_half_even :: "rat \<Rightarrow> int" where
  "round_half_even y =
     (let f = \<lfloor>y\<rfloor>; d = y - of_int f in
      if d < 1 / 2 then f else if 1 / 2 < d then f + 1 else if even f then f else f + 1)"

definition binade :: "rat \<Rightarrow> int" where
  "binade x =
     (case quotient_of x of
        (a, b) \<Rightarrow> let e = bitlen a - bitlen b in if 2 powi e \<le> x then e else e - 1)"

definition quantum :: "rat \<Rightarrow> rat" where
  "quantum x = 2 powi (max (binade x) (- 1022) - 52)"

definition fround :: "rat \<Rightarrow> rat" where
  "fround x = sgn x * (quantum \<bar>x\<bar> * of_int (round_half_even (\<bar>x\<bar> / quantum \<bar>x\<bar>)))"

text \<open>\<open>x * y\<close> and \<open>x + y\<close> on doubles. A decimal literal of the source, such as
  \<open>0.2\<close>, is the double \<open>fround (2 / 10)\<close>; a length is the double of that value.\<close>

definition fmul :: "rat \<Rightarrow> rat \<Rightarrow> rat" where
  "fmul x y = fround (x * y)"

definition fadd :: "rat \<Rightarrow> rat \<Rightarrow> rat" where
  "fadd x y = fround (x + y)"

text \<open>The draws of \<open>Math.random()\<close>, numbered in the order the operation makes them;
  each is a double from 0 up to, not including, 1.\<close>

type_synonym random = "nat \<Rightarrow> rat"

definition is_draw :: "rat \<Rightarrow> bool" where
  "is_draw r = (fround r = r \<and> 0 \<le> r \<and> r < 1)"

text \<open>The inner loop: \<open>numToCorrupt\<close> times, a random position of the array of
  characters gets a random character. For a draw below 1 the position lies in the array
  and the code of the character is below 256.\<close>

fun corruptContent :: "random \<Rightarrow> nat \<Rightarrow> nat \<Rightarrow> string \<Rightarrow> string \<times> nat" where
  "corruptContent rnd k 0 contentArray = (contentArray, k)"
| "corruptContent rnd k (Suc j) contentArray =
     (let pos = nat \<lfloor>fmul (rnd k) (of_nat (length contentArray))\<rfloor>;
          c = char_of (nat \<lfloor>fmul (rnd (k + 1)) 256\<rfloor>)
      in corruptContent rnd (k + 2) j (contentArray[pos := c]))"

text \<open>The writes to one chosen file: the flag, and the content when it is not empty.\<close>

definition corruptNode :: "random \<Rightarrow> nat \<Rightarrow> node \<Rightarrow> node \<times> nat" where
  "corruptNode rnd k node =
     (let node1 = node\<lparr>n_corrupted := True\<rparr> in
      case n_body node1 of
        Children cs \<Rightarrow> (node1, k)
      | Content content \<Rightarrow>
          if content = [] then (node1, k)
          else
            let corruptionLevel = fadd (fround (2 / 10)) (fmul (rnd k) (fround (3 / 10)));
                numToCorrupt = nat \<lfloor>fmul (of_nat (length content)) corruptionLevel\<rfloor>
            in (case corruptContent rnd (k + 1) numToCorrupt content of
                  (contentArray, k') \<Rightarrow> (node1\<lparr>n_body := Content contentArray\<rparr>, k')))"

text \<open>The outer loop: a random element of \<open>fileNodes\<close> is corrupted and spliced out of
  the list. An index outside the list (no draw below 1 gives one) ends in the
  \<open>TypeError\<close> of a write to \<open>undefined\<close>.\<close>

fun corruptLoop :: "random \<Rightarrow> nat \<Rightarrow> nat \<Rightarrow> addr list \<Rightarrow> heap \<Rightarrow> string list
    \<Rightarrow> outcome \<times> heap \<times> string list" where
  "corruptLoop rnd k 0 fileNodes h corrupted = (Done, h, corrupted)"
| "corruptLoop rnd k (Suc i) fileNodes h corrupted =
     (let randomIndex = nat \<lfloor>fmul (rnd k) (of_nat (length fileNodes))\<rfloor> in
      if randomIndex < length fileNodes then
        (case h (fileNodes ! randomIndex) of
           None \<Rightarrow> (Thrown TypeError, h, corrupted)
         | Some node \<Rightarrow>
             (case corruptNode rnd (k + 1) node of
                (node', k') \<Rightarrow>
                  corruptLoop rnd k' i (remove_at randomIndex fileNodes)
                    (h(fileNodes ! randomIndex \<mapsto> node')) (corrupted @ [n_name node])))
      else (Thrown TypeError, h, corrupted))"

text \<open>\<open>corruptRandomItems()\<close>.\<close>

definition uncorrupted_file :: "heap \<Rightarrow> addr \<Rightarrow> bool" where
  "uncorrupted_file h a =
     (case h a of None \<Rightarrow> False | Some n \<Rightarrow> \<not> is_folder n \<and> \<not> n_corrupted n)"

definition corruptRandomItems :: "random \<Rightarrow> vfs \<Rightarrow> (outcome \<times> vfs) option" where
  "corruptRandomItems rnd st =
     (case getAllNodes (heap st) (fileSystem st) of
        None \<Rightarrow> Some (Thrown RangeError, st)
      | Some allNodes \<Rightarrow>
          let fileNodes = filter (uncorrupted_file (heap st)) allNodes in
          if fileNodes = [] then Some (Refused NothingToDo, st)  \<comment> \<open>No uncorrupted files found\<close>
          else
            let numToCorrupt = min (nat \<lfloor>fmul (rnd 0) 3\<rfloor> + 1) (length fileNodes) in
            (case corruptLoop rnd 1 numToCorrupt fileNodes (heap st) [] of
               (result, h', corrupted) \<Rightarrow> Some (result, st\<lparr>heap := h'\<rparr>)))"

subsection \<open>Well-formed stores and example states\<close>

text \<open>The allocator's invariant: no object lives at or above the next free address.\<close>

definition alloc_ok :: "vfs \<Rightarrow> bool" where
  "alloc_ok st = (\<forall>x\<ge>nextAddr st. heap st x = None)"

definition demo_root :: "addr list \<Rightarrow> node" where
  "demo_root cs = \<lparr>n_id = ''root'', n_name = ''/'', n_owner = ''admin'',
     n_permissions = folder_perms, n_size = 0, n_createdAt = 0, n_modifiedAt = 0,
     n_corrupted = False, n_body = Children cs\<rparr>"

text \<open>An empty root folder, the user \<open>admin\<close> without the admin override.\<close>

definition st_empty :: vfs where
  "st_empty = \<lparr>currentUser = ''admin'', adminMode = False, currentPath = ''/'',
     selectedItem = None, clipboard = None, snapshots = [], fileSystem = 0,
     heap = [0 \<mapsto> demo_root []], nextAddr = 1\<rparr>"

text \<open>The state after an operation; a call without a result leaves the state.\<close>

definition after :: "(outcome \<times> vfs) option \<Rightarrow> vfs \<Rightarrow> vfs" where
  "after r st = (case r of None \<Rightarrow> st | Some (result, st') \<Rightarrow> st')"

text \<open>\<open>mkdir home\<close>, \<open>cd home\<close> in the terminal.\<close>

definition st_home :: vfs where
  "st_home =
     (let st1 = after (terminalMKDIR st_empty ''node_1'' 1 (Some ''home'')) st_empty
      in snd (terminalCD st1 (Some ''home'')))"

text \<open>\<open>mkdir tmp\<close>, \<open>cd tmp\<close>, \<open>rm /tmp\<close> in the terminal.\<close>

definition st_gone :: vfs where
  "st_gone =
     (let st1 = after (terminalMKDIR st_empty ''node_1'' 1 (Some ''tmp'')) st_empty;
          st2 = snd (terminalCD st1 (Some ''tmp''))
      in after (terminalRM st2 2 (Some ''/tmp'')) st2)"

text \<open>\<open>mkdir /\<close> in the terminal, then a click on the new item in the explorer, whose
  path is the current path followed by the name (\<open>item.dataset.path\<close>).\<close>

definition st_slash :: vfs where
  "st_slash =
     (after (terminalMKDIR st_empty ''node_1'' 1 (Some ''/'')) st_empty)\<lparr>selectedItem := Some ''//''\<rparr>"

text \<open>The root with the folder \<open>home\<close>, which holds the file \<open>a.txt\<close>.\<close>

definition st_tree :: vfs where
  "st_tree = st_empty\<lparr>heap :=
       [0 \<mapsto> (demo_root [1])\<lparr>n_size := 2\<rparr>,
        1 \<mapsto> (createNode ''node_1'' 1 ''home'' Folder ''admin'' folder_perms)
               \<lparr>n_size := 2, n_body := Children [2]\<rparr>,
        2 \<mapsto> (createNode ''node_2'' 2 ''a.txt'' File ''admin'' file_perms)
               \<lparr>n_size := 2, n_body := Content ''hi''\<rparr>],
     nextAddr := 3\<rparr>"

text \<open>The tree of \<open>st_tree\<close> after \<open>copyItem('/home')\<close>: the clipboard holds the copy at
  the addresses 3 and 4.\<close>

definition st_clip :: vfs where
  "st_clip = st_tree\<lparr>heap := (heap st_tree)
       (3 \<mapsto> (createNode ''node_1'' 1 ''home'' Folder ''admin'' folder_perms)
               \<lparr>n_size := 2, n_body := Children [4]\<rparr>,
        4 \<mapsto> (createNode ''node_2'' 2 ''a.txt'' File ''admin'' file_perms)
               \<lparr>n_size := 2, n_body := Content ''hi''\<rparr>),
     nextAddr := 5,
     clipboard := Some \<lparr>cb_action = Copy, cb_node = 3, cb_sourcePath = ''/home''\<rparr>\<rparr>"

text \<open>The root with the file \<open>x.txt\<close>, and a copy of that file in the clipboard.\<close>

definition st_x :: vfs where
  "st_x = st_empty\<lparr>heap :=
       [0 \<mapsto> (demo_root [1])\<lparr>n_size := 2\<rparr>,
        1 \<mapsto> (createNode ''node_1'' 1 ''x.txt'' File ''admin'' file_perms)
               \<lparr>n_size := 2, n_body := Content ''hi''\<rparr>,
        2 \<mapsto> (createNode ''node_1'' 1 ''x.txt'' File ''admin'' file_perms)
               \<lparr>n_size := 2, n_body := Content ''hi''\<rparr>],
     nextAddr := 3,
     clipboard := Some \<lparr>cb_action = Copy, cb_node = 2, cb_sourcePath = ''/x.txt''\<rparr>\<rparr>"

text \<open>The root with the file \<open>d.txt\<close> of ten characters.\<close>

definition st_ten :: vfs where
  "st_ten = st_empty\<lparr>heap :=
       [0 \<mapsto> (demo_root [1])\<lparr>n_size := 10\<rparr>,
        1 \<mapsto> (createNode ''node_1'' 1 ''d.txt'' File ''admin'' file_perms)
               \<lparr>n_size := 10, n_body := Content ''0123456789''\<rparr>],
     nextAddr := 2\<rparr>"

text \<open>The root with the folder \<open>a\<close>, which holds the empty folder \<open>b\<close>, after
  \<open>moveItem('/a')\<close>.\<close>

definition st_nested :: vfs where
  "st_nested = st_empty\<lparr>heap :=
       [0 \<mapsto> demo_root [1],
        1 \<mapsto> (createNode ''node_1'' 1 ''a'' Folder ''admin'' folder_perms)\<lparr>n_body := Children [2]\<rparr>,
        2 \<mapsto> createNode ''node_2'' 2 ''b'' Folder ''admin'' folder_perms],
     nextAddr := 3,
     clipboard := Some \<lparr>cb_action = Move, cb_node = 1, cb_sourcePath = ''/a''\<rparr>\<rparr>"

subsection \<open>Relations between stores\<close>

text \<open>Two objects that differ at most in the size of a folder.\<close>

definition same_but_size :: "node option \<Rightarrow> node option \<Rightarrow> bool" where
  "same_but_size x y =
     (case x of
        None \<Rightarrow> y = None
      | Some n \<Rightarrow>
          (case y of
             None \<Rightarrow> False
           | Some m \<Rightarrow> m\<lparr>n_size := 0\<rparr> = n\<lparr>n_size := 0\<rparr> \<and> (is_folder n \<or> n_size m = n_size n)))"

text \<open>Two stores that differ at most in the sizes of folders.\<close>

definition size_variant :: "heap \<Rightarrow> heap \<Rightarrow> bool" where
  "size_variant h h' = (\<forall>x. same_but_size (h x) (h' x))"

text \<open>The JSON of a tree without the sizes of its folders.\<close>

primrec forget_sizes :: "json \<Rightarrow> json" where
  "forget_sizes (JNode f b) =
     JNode (case b of Children js \<Rightarrow> f\<lparr>n_size := 0\<rparr> | Content s \<Rightarrow> f) (map_body forget_sizes b)"

text \<open>The number of positions at which two strings of the same length differ.\<close>

definition differences :: "string \<Rightarrow> string \<Rightarrow> nat" where
  "differences s s' = length (filter (\<lambda>i. s ! i \<noteq> s' ! i) [0..<length s])"

text \<open>The corruption of a content in closed form. For the draw \<open>r\<close> the level is
  \<open>0.2 + r * 0.3\<close> and the number of writes \<open>Math.floor(length * level)\<close>, both in
  doubles; the writes, a position and a character each, take two draws each, in order;
  they are applied from the first to the last.\<close>

definition level_of :: "rat \<Rightarrow> rat" where
  "level_of r = fadd (fround (2 / 10)) (fmul r (fround (3 / 10)))"

definition writes_count :: "rat \<Rightarrow> nat \<Rightarrow> nat" where
  "writes_count r len = nat \<lfloor>fmul (of_nat len) (level_of r)\<rfloor>"

definition writes_at :: "random \<Rightarrow> nat \<Rightarrow> nat \<Rightarrow> nat \<Rightarrow> (nat \<times> char) list" where
  "writes_at rnd k w len =
     map (\<lambda>j. (nat \<lfloor>fmul (rnd (k + 2 * j)) (of_nat len)\<rfloor>,
               char_of (nat \<lfloor>fmul (rnd (k + 2 * j + 1)) 256\<rfloor>))) [0..<w]"

definition apply_writes :: "(nat \<times> char) list \<Rightarrow> string \<Rightarrow> string" where
  "apply_writes ws s = foldl (\<lambda>t (pos, c). t[pos := c]) s ws"

text \<open>The writes to a content \<open>s\<close> when the level is drawn at \<open>k\<close>.\<close>

definition writes_of :: "random \<Rightarrow> nat \<Rightarrow> string \<Rightarrow> (nat \<times> char) list" where
  "writes_of rnd k s = writes_at rnd (k + 1) (writes_count (rnd k) (length s)) (length s)"

text \<open>An object before and after \<open>corruptRandomItems\<close> chose it, once or more often; and
  an object that it chose once, with the level drawn at \<open>k\<close>.\<close>

definition corrupted_version :: "node option \<Rightarrow> node option \<Rightarrow> bool" where
  "corrupted_version x y =
     (\<exists>n s s'. x = Some n \<and> n_body n = Content s \<and>
        y = Some (n\<lparr>n_corrupted := True, n_body := Content s'\<rparr>) \<and> length s' = length s)"

definition corrupted_once :: "random \<Rightarrow> node option \<Rightarrow> node option \<Rightarrow> bool" where
  "corrupted_once rnd x y =
     (\<exists>n s k. x = Some n \<and> n_body n = Content s \<and>
        y = Some (n\<lparr>n_corrupted := True, n_body := Content (apply_writes (writes_of rnd k s) s)\<rparr>))"

section \<open>Lemmas\<close>

lemma uniqueLoop_fresh: "uniqueLoop names b name c \<notin> set names"
  by (induction names b name c rule: uniqueLoop.induct) (subst uniqueLoop.simps, simp)

lemma uniqueLoop_char:
  "name \<in> set names \<Longrightarrow>
   \<exists>k\<ge>c. uniqueLoop names b name c = candidate b k \<and> candidate b k \<notin> set names \<and>
     (\<forall>i. c \<le> i \<and> i < k \<longrightarrow> candidate b i \<in> set names)"
proof (induction names b name c rule: uniqueLoop.induct)
  case (1 names b name c)
  show ?case
  proof (cases "candidate b c \<in> set names")
    case True
    from 1(1)[OF 1(2) True] obtain k where k: "k \<ge> c + 1"
      "uniqueLoop names b (candidate b c) (c + 1) = candidate b k" "candidate b k \<notin> set names"
      "\<forall>i. c + 1 \<le> i \<and> i < k \<longrightarrow> candidate b i \<in> set names" by auto
    have "\<forall>i. c \<le> i \<and> i < k \<longrightarrow> candidate b i \<in> set names"
    proof (intro allI impI)
      fix i assume "c \<le> i \<and> i < k"
      then show "candidate b i \<in> set names" using k(4) True by (cases "i = c") auto
    qed
    with k 1(2) show ?thesis by (subst uniqueLoop.simps) (auto intro!: exI[of _ k])
  next
    case False
    have "uniqueLoop names b name c = candidate b c"
      using 1(2) False by (subst uniqueLoop.simps, simp, subst uniqueLoop.simps, simp)
    with False show ?thesis by (auto intro!: exI[of _ c])
  qed
qed


subsection \<open>Deep copies\<close>

lemma fields_of_node_of [simp]: "fields_of (node_of f b) = f"
  by (simp add: fields_of_def node_of_def)

lemma n_body_node_of [simp]: "n_body (node_of f b) = b"
  by (simp add: node_of_def)

lemma stringifyAll_frame_aux:
  "stringifyAll h as = Some js \<Longrightarrow>
   \<forall>h'. (\<forall>x. h x \<noteq> None \<longrightarrow> h' x = h x) \<longrightarrow> stringifyAll h' as = Some js"
proof (rule stringifyAll.raw_induct
    [where P = "\<lambda>h as js. \<forall>h'. (\<forall>x. h x \<noteq> None \<longrightarrow> h' x = h x) \<longrightarrow> stringifyAll h' as = Some js"])
  fix f h as js
  assume IH: "\<And>h as js. f h as = Some js \<Longrightarrow>
      \<forall>h'. (\<forall>x. h x \<noteq> None \<longrightarrow> h' x = h x) \<longrightarrow> stringifyAll h' as = Some js"
  assume body: "(case as of
        [] \<Rightarrow> Some []
      | a # rest \<Rightarrow>
          (case h a of
             None \<Rightarrow> None
           | Some n \<Rightarrow>
               (case n_body n of
                  Children cs \<Rightarrow>
                    Option.bind (f h cs) (\<lambda>ks.
                      Option.bind (f h rest) (\<lambda>js.
                        Some (JNode (fields_of n) (Children ks) # js)))
                | Content s \<Rightarrow>
                    Option.bind (f h rest) (\<lambda>js. Some (JNode (fields_of n) (Content s) # js))))) = Some js"
  show "\<forall>h'. (\<forall>x. h x \<noteq> None \<longrightarrow> h' x = h x) \<longrightarrow> stringifyAll h' as = Some js"
  proof (intro allI impI)
    fix h'
    assume agree: "\<forall>x. h x \<noteq> None \<longrightarrow> h' x = h x"
    show "stringifyAll h' as = Some js"
    proof (cases as)
      case Nil
      with body show ?thesis by simp
    next
      case (Cons a rest)
      with body obtain n where n: "h a = Some n" by (auto split: option.splits)
      with agree have n': "h' a = Some n" by auto
      show ?thesis
      proof (cases "n_body n")
        case (Content s)
        with body Cons n obtain ks where ks: "f h rest = Some ks"
          and js: "js = JNode (fields_of n) (Content s) # ks"
          by (auto split: Option.bind_splits)
        from IH[OF ks] agree have "stringifyAll h' rest = Some ks" by blast
        with Cons n' Content js show ?thesis by simp
      next
        case (Children cs)
        with body Cons n obtain ks ls where ks: "f h cs = Some ks" and ls: "f h rest = Some ls"
          and js: "js = JNode (fields_of n) (Children ks) # ls"
          by (auto split: Option.bind_splits)
        from IH[OF ks] agree have a: "stringifyAll h' cs = Some ks" by blast
        from IH[OF ls] agree have b: "stringifyAll h' rest = Some ls" by blast
        with a Cons n' Children js show ?thesis by simp
      qed
    qed
  qed
qed

lemma stringifyAll_frame:
  "stringifyAll h as = Some js \<Longrightarrow> (\<And>x. h x \<noteq> None \<Longrightarrow> h' x = h x) \<Longrightarrow>
   stringifyAll h' as = Some js"
  using stringifyAll_frame_aux by blast

lemma stringifyAll_length: "stringifyAll h as = Some js \<Longrightarrow> length js = length as"
proof (rule stringifyAll.raw_induct [where P = "\<lambda>h as js. length js = length as"])
qed (auto split: list.splits option.splits body.splits Option.bind_splits)

lemma stringifyAll_split:
  "stringifyAll h (a # rest) =
     Option.bind (stringifyAll h [a]) (\<lambda>js. Option.bind (stringifyAll h rest) (\<lambda>ks. Some (js @ ks)))"
  by (auto split: option.splits body.splits Option.bind_splits)

lemma parse_facts:
  "(\<forall>x\<ge>n. h x = None) \<Longrightarrow> parse j (h, n) = (a, h', n') \<Longrightarrow>
     a = n \<and> n < n' \<and> (\<forall>x<n. h' x = h x) \<and> (\<forall>x\<ge>n'. h' x = None) \<and>
     stringifyAll h' [a] = Some [j]"
  "(\<forall>x\<ge>n. h x = None) \<Longrightarrow> parseAll js (h, n) = (cs, h', n') \<Longrightarrow>
     n \<le> n' \<and> (\<forall>x<n. h' x = h x) \<and> (\<forall>x\<ge>n'. h' x = None) \<and>
     stringifyAll h' cs = Some js"
proof (induction j "(h, n)" and js "(h, n)" arbitrary: h n a h' n' and h n cs h' n'
    rule: parse_parseAll.induct)
  case (1 f s h n)
  then show ?case by auto
next
  case (2 f js h n)
  obtain cs h1 n1 where p: "parseAll js (h, Suc n) = (cs, h1, n1)" by (cases "parseAll js (h, Suc n)") auto
  from 2(2) have "\<forall>x\<ge>Suc n. h x = None" by auto
  from 2(1)[OF this p] have ih: "Suc n \<le> n1" "\<forall>x<Suc n. h1 x = h x" "\<forall>x\<ge>n1. h1 x = None"
    "stringifyAll h1 cs = Some js" by auto
  from 2(3) p have res: "a = n" "h' = h1(n \<mapsto> node_of f (Children cs))" "n' = n1" by auto
  have hn: "h1 n = None" using ih(2) 2(2) by auto
  have "stringifyAll h' cs = Some js"
    by (rule stringifyAll_frame[OF ih(4)]) (use hn res in auto)
  then have "stringifyAll h' [a] = Some [JNode f (Children js)]" using res by simp
  moreover have "\<forall>x<n. h' x = h x" using res ih(2) by auto
  moreover have "\<forall>x\<ge>n'. h' x = None" using res ih(1,3) by auto
  ultimately show ?case using res ih(1) by auto
next
  case (3 h n)
  then show ?case by auto
next
  case (4 j js h n)
  obtain c h1 n1 where p1: "parse j (h, n) = (c, h1, n1)" by (cases "parse j (h, n)") auto
  obtain ds h2 n2 where p2: "parseAll js (h1, n1) = (ds, h2, n2)" by (cases "parseAll js (h1, n1)") auto
  from 4(1)[OF 4(3) p1] have ih1: "c = n" "n < n1" "\<forall>x<n. h1 x = h x" "\<forall>x\<ge>n1. h1 x = None"
    "stringifyAll h1 [c] = Some [j]" by auto
  from 4(2)[OF p1[symmetric] refl ih1(4) p2] have ih2: "n1 \<le> n2" "\<forall>x<n1. h2 x = h1 x" "\<forall>x\<ge>n2. h2 x = None"
    "stringifyAll h2 ds = Some js" by auto
  from 4(4) p1 p2 have res: "cs = c # ds" "h' = h2" "n' = n2" by auto
  have "stringifyAll h2 [c] = Some [j]"
  proof (rule stringifyAll_frame[OF ih1(5)])
    fix x assume "h1 x \<noteq> None"
    then have "x < n1" using ih1(4) by (meson not_le)
    then show "h2 x = h1 x" using ih2(2) by auto
  qed
  then have "stringifyAll h2 (c # ds) = Some (j # js)"
    using ih2(4) by (subst stringifyAll_split) simp
  then show ?case using res ih1 ih2 by auto
qed


lemma stringify_Some: "stringify h a = Some j \<longleftrightarrow> stringifyAll h [a] = Some [j]"
  by (auto simp: stringify_def split: option.splits list.splits)

text \<open>The copy of a tree is a tree of new objects with the same JSON, and the old objects
  are as they were.\<close>

lemma clone_facts:
  assumes "\<forall>x\<ge>n. h x = None" and "stringify h a = Some j" and "parse j (h, n) = (c, h', n')"
  shows "stringify h' c = Some j" and "stringify h' a = Some j" and "\<forall>x\<ge>n'. h' x = None"
    and "c = n" and "n < n'" and "\<forall>x<n. h' x = h x"
proof -
  from parse_facts(1)[OF assms(1,3)] have f: "c = n" "n < n'" "\<forall>x<n. h' x = h x" "\<forall>x\<ge>n'. h' x = None"
    "stringifyAll h' [c] = Some [j]" by auto
  show "stringify h' c = Some j" using f(5) by (simp add: stringify_Some)
  have "stringifyAll h' [a] = Some [j]"
  proof (rule stringifyAll_frame)
    show "stringifyAll h [a] = Some [j]" using assms(2) by (simp add: stringify_Some)
  next
    fix x assume "h x \<noteq> None"
    then have "x < n" using assms(1) by (meson not_le)
    then show "h' x = h x" using f(3) by simp
  qed
  then show "stringify h' a = Some j" by (simp add: stringify_Some)
  show "\<forall>x\<ge>n'. h' x = None" "c = n" "n < n'" "\<forall>x<n. h' x = h x" using f by auto
qed

subsection \<open>Recomputed sizes\<close>

lemma erase_size_body:
  assumes "m\<lparr>n_size := 0\<rparr> = n\<lparr>n_size := 0\<rparr>"
  shows "n_body m = n_body n"
proof -
  have "n_body (m\<lparr>n_size := 0\<rparr>) = n_body (n\<lparr>n_size := 0\<rparr>)" using assms by (rule arg_cong)
  then show ?thesis by simp
qed

lemma same_but_size_refl [simp]: "same_but_size x x"
  by (simp add: same_but_size_def split: option.splits)

lemma same_but_size_trans:
  "same_but_size x y \<Longrightarrow> same_but_size y z \<Longrightarrow> same_but_size x z"
  by (auto simp: same_but_size_def is_folder_def split: option.splits dest!: erase_size_body)

lemma size_variant_refl [simp]: "size_variant h h"
  by (simp add: size_variant_def)

lemma size_variant_trans: "size_variant h h1 \<Longrightarrow> size_variant h1 h2 \<Longrightarrow> size_variant h h2"
  unfolding size_variant_def by (blast intro: same_but_size_trans)

lemma size_variant_Some:
  "size_variant h h' \<Longrightarrow> h a = Some n \<Longrightarrow> \<exists>m. h' a = Some m \<and> n_body m = n_body n"
proof -
  assume sv: "size_variant h h'" and n: "h a = Some n"
  from sv have "same_but_size (h a) (h' a)" by (simp add: size_variant_def)
  with n show ?thesis
    by (auto simp: same_but_size_def split: option.splits dest: erase_size_body)
qed

lemma size_variant_set_size:
  assumes "h a = Some n" "is_folder n"
  shows "size_variant h (modify a (\<lambda>n. n\<lparr>n_size := s\<rparr>) h)"
  using assms by (auto simp: size_variant_def same_but_size_def modify_def split: option.splits)

lemma sumChildren_frame: "sumChildren h cs = Some r \<Longrightarrow> size_variant h (snd r)"
proof (rule sumChildren.raw_induct [where P = "\<lambda>h cs r. size_variant h (snd r)"])
  fix f :: "heap \<Rightarrow> addr list \<Rightarrow> (nat \<times> heap) option" and h cs r
  assume IH: "\<And>h cs r. f h cs = Some r \<Longrightarrow> size_variant h (snd r)"
  assume body: "(case cs of
        [] \<Rightarrow> Some (0, h)
      | child # rest \<Rightarrow>
          (case h child of
             None \<Rightarrow> None
           | Some n \<Rightarrow>
               (case n_body n of
                  Children gs \<Rightarrow>
                    Option.bind (f h gs) (\<lambda>(totalSize, h1).
                      Option.bind (f (modify child (\<lambda>n. n\<lparr>n_size := totalSize\<rparr>) h1) rest)
                        (\<lambda>(t, h'). Some (totalSize + t, h')))
                | Content s \<Rightarrow>
                    Option.bind (f h rest) (\<lambda>(t, h'). Some (n_size n + t, h'))))) = Some r"
  show "size_variant h (snd r)"
  proof (cases cs)
    case Nil
    with body show ?thesis by auto
  next
    case (Cons child rest)
    with body obtain n where n: "h child = Some n" by (auto split: option.splits)
    show ?thesis
    proof (cases "n_body n")
      case (Content s)
      with body Cons n obtain t h' where "f h rest = Some (t, h')" "r = (n_size n + t, h')"
        by (auto split: Option.bind_splits)
      with IH[of h rest "(t, h')"] show ?thesis by simp
    next
      case (Children gs)
      with body Cons n obtain s h1 t h' where a: "f h gs = Some (s, h1)"
        and b: "f (modify child (\<lambda>n. n\<lparr>n_size := s\<rparr>) h1) rest = Some (t, h')"
        and r: "r = (s + t, h')"
        by (auto split: Option.bind_splits)
      from IH[OF a] have 1: "size_variant h h1" by simp
      from size_variant_Some[OF 1 n] obtain m where m: "h1 child = Some m" "n_body m = n_body n"
        by auto
      then have "is_folder m" using Children by (simp add: is_folder_def)
      from size_variant_set_size[of h1 child m s, OF m(1) this]
      have 2: "size_variant h1 (modify child (\<lambda>n. n\<lparr>n_size := s\<rparr>) h1)" .
      from IH[OF b] have 3: "size_variant (modify child (\<lambda>n. n\<lparr>n_size := s\<rparr>) h1) h'" by simp
      from 1 2 3 r show ?thesis by (auto intro: size_variant_trans)
    qed
  qed
qed (assumption)

lemma sumChildren_terminates_aux:
  "stringifyAll h as = Some js \<Longrightarrow>
   \<forall>h1. size_variant h h1 \<longrightarrow> (\<exists>r. sumChildren h1 as = Some r)"
proof (rule stringifyAll.raw_induct
    [where P = "\<lambda>h as js. \<forall>h1. size_variant h h1 \<longrightarrow> (\<exists>r. sumChildren h1 as = Some r)"])
  fix f :: "heap \<Rightarrow> addr list \<Rightarrow> json list option" and h as js
  assume IH: "\<And>h as js. f h as = Some js \<Longrightarrow>
      \<forall>h1. size_variant h h1 \<longrightarrow> (\<exists>r. sumChildren h1 as = Some r)"
  assume body: "(case as of
        [] \<Rightarrow> Some []
      | a # rest \<Rightarrow>
          (case h a of
             None \<Rightarrow> None
           | Some n \<Rightarrow>
               (case n_body n of
                  Children cs \<Rightarrow>
                    Option.bind (f h cs) (\<lambda>ks.
                      Option.bind (f h rest) (\<lambda>js.
                        Some (JNode (fields_of n) (Children ks) # js)))
                | Content s \<Rightarrow>
                    Option.bind (f h rest) (\<lambda>js. Some (JNode (fields_of n) (Content s) # js))))) = Some js"
  show "\<forall>h1. size_variant h h1 \<longrightarrow> (\<exists>r. sumChildren h1 as = Some r)"
  proof (intro allI impI)
    fix h1 assume sv: "size_variant h h1"
    show "\<exists>r. sumChildren h1 as = Some r"
    proof (cases as)
      case Nil
      then show ?thesis by simp
    next
      case (Cons a rest)
      with body obtain n where n: "h a = Some n" by (auto split: option.splits)
      from size_variant_Some[OF sv n] obtain m where m: "h1 a = Some m" "n_body m = n_body n"
        by auto
      show ?thesis
      proof (cases "n_body n")
        case (Content s)
        with body Cons n obtain ks where ks: "f h rest = Some ks"
          by (auto split: Option.bind_splits)
        from IH[OF ks] sv obtain r where "sumChildren h1 rest = Some r" by blast
        with Cons m Content show ?thesis by (cases r) simp
      next
        case (Children cs)
        with body Cons n obtain ks ls where ks: "f h cs = Some ks" and ls: "f h rest = Some ls"
          by (auto split: Option.bind_splits)
        from IH[OF ks] sv obtain s h2 where s: "sumChildren h1 cs = Some (s, h2)" by fastforce
        from sumChildren_frame[OF s] have 1: "size_variant h1 h2" by simp
        from size_variant_Some[OF 1 m(1)] obtain m2 where m2: "h2 a = Some m2" "n_body m2 = n_body m"
          by auto
        then have "is_folder m2" using Children m(2) by (simp add: is_folder_def)
        from size_variant_set_size[of h2 a m2 s, OF m2(1) this]
        have 2: "size_variant h2 (modify a (\<lambda>n. n\<lparr>n_size := s\<rparr>) h2)" .
        have "size_variant h (modify a (\<lambda>n. n\<lparr>n_size := s\<rparr>) h2)"
          using sv 1 2 by (blast intro: size_variant_trans)
        with IH[OF ls] obtain r where "sumChildren (modify a (\<lambda>n. n\<lparr>n_size := s\<rparr>) h2) rest = Some r"
          by blast
        with Cons m Children s show ?thesis by (cases r) simp
      qed
    qed
  qed
qed (assumption)

lemma sumChildren_terminates:
  "stringifyAll h as = Some js \<Longrightarrow> \<exists>t h'. sumChildren h as = Some (t, h') \<and> size_variant h h'"
proof -
  assume "stringifyAll h as = Some js"
  from sumChildren_terminates_aux[OF this] obtain r where r: "sumChildren h as = Some r"
    using size_variant_refl by blast
  from sumChildren_frame[OF r] r show ?thesis by (cases r) auto
qed

lemma stringifyAll_append:
  "stringifyAll h (as @ bs) =
     Option.bind (stringifyAll h as) (\<lambda>js. Option.bind (stringifyAll h bs) (\<lambda>ks. Some (js @ ks)))"
proof (induction as)
  case Nil
  then show ?case by (cases "stringifyAll h bs") auto
next
  case (Cons a as)
  have "stringifyAll h ((a # as) @ bs) =
      Option.bind (stringifyAll h [a]) (\<lambda>js. Option.bind (stringifyAll h (as @ bs)) (\<lambda>ks. Some (js @ ks)))"
    by (simp only: append_Cons stringifyAll_split[of h a "as @ bs"])
  also have "\<dots> = Option.bind (stringifyAll h [a]) (\<lambda>js.
      Option.bind (stringifyAll h as) (\<lambda>ks. Option.bind (stringifyAll h bs) (\<lambda>ls. Some (js @ ks @ ls))))"
    by (simp only: Cons.IH) (auto split: Option.bind_splits)
  also have "\<dots> = Option.bind (stringifyAll h (a # as))
      (\<lambda>js. Option.bind (stringifyAll h bs) (\<lambda>ks. Some (js @ ks)))"
    by (subst stringifyAll_split[of h a as]) (auto split: Option.bind_splits)
  finally show ?case .
qed

lemma stringifyAll_frame_except_aux:
  "stringifyAll h as = Some js \<Longrightarrow>
   stringifyAll h as = Some js \<and>
   (\<forall>h'. stringifyAll h [d] = Some [jd] \<and> size_list size js < size jd \<and>
      (\<forall>x. x \<noteq> d \<longrightarrow> h x \<noteq> None \<longrightarrow> h' x = h x) \<longrightarrow> stringifyAll h' as = Some js)"
proof (rule stringifyAll.raw_induct
    [where P = "\<lambda>h as js. stringifyAll h as = Some js \<and>
   (\<forall>h'. stringifyAll h [d] = Some [jd] \<and> size_list size js < size jd \<and>
      (\<forall>x. x \<noteq> d \<longrightarrow> h x \<noteq> None \<longrightarrow> h' x = h x) \<longrightarrow> stringifyAll h' as = Some js)"])
  fix f :: "heap \<Rightarrow> addr list \<Rightarrow> json list option" and h as js
  assume IH: "\<And>h as js. f h as = Some js \<Longrightarrow> stringifyAll h as = Some js \<and>
   (\<forall>h'. stringifyAll h [d] = Some [jd] \<and> size_list size js < size jd \<and>
      (\<forall>x. x \<noteq> d \<longrightarrow> h x \<noteq> None \<longrightarrow> h' x = h x) \<longrightarrow> stringifyAll h' as = Some js)"
  assume body: "(case as of
        [] \<Rightarrow> Some []
      | a # rest \<Rightarrow>
          (case h a of
             None \<Rightarrow> None
           | Some n \<Rightarrow>
               (case n_body n of
                  Children cs \<Rightarrow>
                    Option.bind (f h cs) (\<lambda>ks.
                      Option.bind (f h rest) (\<lambda>js.
                        Some (JNode (fields_of n) (Children ks) # js)))
                | Content s \<Rightarrow>
                    Option.bind (f h rest) (\<lambda>js. Some (JNode (fields_of n) (Content s) # js))))) = Some js"
  show "stringifyAll h as = Some js \<and>
   (\<forall>h'. stringifyAll h [d] = Some [jd] \<and> size_list size js < size jd \<and>
      (\<forall>x. x \<noteq> d \<longrightarrow> h x \<noteq> None \<longrightarrow> h' x = h x) \<longrightarrow> stringifyAll h' as = Some js)"
  proof (cases as)
    case Nil
    with body show ?thesis by simp
  next
    case (Cons a rest)
    with body obtain n where n: "h a = Some n" by (auto split: option.splits)
    show ?thesis
    proof (cases "n_body n")
      case (Content s)
      with body Cons n obtain ks where ks: "f h rest = Some ks"
        and js: "js = JNode (fields_of n) (Content s) # ks"
        by (auto split: Option.bind_splits)
      note ih = IH[OF ks]
      have 1: "stringifyAll h as = Some js" using ih Cons n Content js by simp
      have 2: "stringifyAll h' as = Some js"
        if g: "stringifyAll h [d] = Some [jd]" "size_list size js < size jd"
          "\<forall>x. x \<noteq> d \<longrightarrow> h x \<noteq> None \<longrightarrow> h' x = h x" for h'
      proof (cases "a = d")
        case True
        with g(1) n Content have "jd = JNode (fields_of n) (Content s)" by simp
        with g(2) js show ?thesis by simp
      next
        case False
        with g(3) n have "h' a = Some n" by simp
        moreover have "stringifyAll h' rest = Some ks" using ih g js by auto
        ultimately show ?thesis using Cons Content js by simp
      qed
      from 1 2 show ?thesis by blast
    next
      case (Children cs)
      with body Cons n obtain ks ls where ks: "f h cs = Some ks" and ls: "f h rest = Some ls"
        and js: "js = JNode (fields_of n) (Children ks) # ls"
        by (auto split: Option.bind_splits)
      note ih1 = IH[OF ks] and ih2 = IH[OF ls]
      have 1: "stringifyAll h as = Some js" using ih1 ih2 Cons n Children js by simp
      have 2: "stringifyAll h' as = Some js"
        if g: "stringifyAll h [d] = Some [jd]" "size_list size js < size jd"
          "\<forall>x. x \<noteq> d \<longrightarrow> h x \<noteq> None \<longrightarrow> h' x = h x" for h'
      proof (cases "a = d")
        case True
        with g(1) n Children ih1 have "jd = JNode (fields_of n) (Children ks)" by simp
        with g(2) js show ?thesis by simp
      next
        case False
        with g(3) n have "h' a = Some n" by simp
        moreover have "stringifyAll h' cs = Some ks" using ih1 g js by auto
        moreover have "stringifyAll h' rest = Some ls" using ih2 g js by auto
        ultimately show ?thesis using Cons Children js by simp
      qed
      from 1 2 show ?thesis by blast
    qed
  qed
qed (assumption)

text \<open>A folder is not among the nodes below it: the JSON of its children is smaller than
  its own. So a write to the folder leaves the JSON of its children as it was.\<close>

lemma stringifyAll_children_frame:
  assumes "h d = Some n" "n_body n = Children cs" "stringifyAll h cs = Some ks"
    and "\<And>x. x \<noteq> d \<Longrightarrow> h x \<noteq> None \<Longrightarrow> h' x = h x"
  shows "stringifyAll h' cs = Some ks"
proof -
  have "stringifyAll h [d] = Some [JNode (fields_of n) (Children ks)]" using assms(1-3) by simp
  moreover have "size_list size ks < size (JNode (fields_of n) (Children ks))" by simp
  ultimately show ?thesis
    using stringifyAll_frame_except_aux[OF assms(3), of d "JNode (fields_of n) (Children ks)"] assms(4)
    by blast
qed

lemma parse_region:
  "parse j (h, n) = (a, h', n') \<Longrightarrow>
     a = n \<and> n < n' \<and> (\<forall>x. x < n \<or> n' \<le> x \<longrightarrow> h' x = h x) \<and>
     (\<forall>x. n \<le> x \<and> x < n' \<longrightarrow> h' x \<noteq> None) \<and>
     (\<forall>h''. (\<forall>x. n \<le> x \<and> x < n' \<longrightarrow> h'' x = h' x) \<longrightarrow> stringifyAll h'' [a] = Some [j])"
  "parseAll js (h, n) = (cs, h', n') \<Longrightarrow>
     n \<le> n' \<and> (\<forall>x. x < n \<or> n' \<le> x \<longrightarrow> h' x = h x) \<and>
     (\<forall>x. n \<le> x \<and> x < n' \<longrightarrow> h' x \<noteq> None) \<and>
     (\<forall>h''. (\<forall>x. n \<le> x \<and> x < n' \<longrightarrow> h'' x = h' x) \<longrightarrow> stringifyAll h'' cs = Some js)"
proof (induction j "(h, n)" and js "(h, n)" arbitrary: h n a h' n' and h n cs h' n'
    rule: parse_parseAll.induct)
  case (1 f s h n)
  then show ?case by auto
next
  case (2 f js h n)
  obtain cs h1 n1 where p: "parseAll js (h, Suc n) = (cs, h1, n1)"
    by (cases "parseAll js (h, Suc n)") auto
  from 2(1)[OF p] have ih: "Suc n \<le> n1" "\<forall>x. x < Suc n \<or> n1 \<le> x \<longrightarrow> h1 x = h x"
    "\<forall>x. Suc n \<le> x \<and> x < n1 \<longrightarrow> h1 x \<noteq> None"
    "\<forall>h''. (\<forall>x. Suc n \<le> x \<and> x < n1 \<longrightarrow> h'' x = h1 x) \<longrightarrow> stringifyAll h'' cs = Some js" by auto
  from 2(2) p have res: "a = n" "h' = h1(n \<mapsto> node_of f (Children cs))" "n' = n1" by auto
  have "stringifyAll h'' [a] = Some [JNode f (Children js)]"
    if "\<forall>x. n \<le> x \<and> x < n' \<longrightarrow> h'' x = h' x" for h''
  proof -
    from that res ih(1) have "h'' n = Some (node_of f (Children cs))" by auto
    moreover from that res have "\<forall>x. Suc n \<le> x \<and> x < n1 \<longrightarrow> h'' x = h1 x" by auto
    with ih(4) have "stringifyAll h'' cs = Some js" by blast
    ultimately show ?thesis using res by simp
  qed
  moreover have "\<forall>x. x < n \<or> n' \<le> x \<longrightarrow> h' x = h x" using res ih(1,2) by auto
  moreover have "\<forall>x. n \<le> x \<and> x < n' \<longrightarrow> h' x \<noteq> None" using res ih(3) by auto
  ultimately show ?case using res ih(1) by auto
next
  case (3 h n)
  then show ?case by auto
next
  case (4 j js h n)
  obtain c h1 n1 where p1: "parse j (h, n) = (c, h1, n1)" by (cases "parse j (h, n)") auto
  obtain ds h2 n2 where p2: "parseAll js (h1, n1) = (ds, h2, n2)"
    by (cases "parseAll js (h1, n1)") auto
  from 4(1)[OF p1] have ih1: "c = n" "n < n1" "\<forall>x. x < n \<or> n1 \<le> x \<longrightarrow> h1 x = h x"
    "\<forall>x. n \<le> x \<and> x < n1 \<longrightarrow> h1 x \<noteq> None"
    "\<forall>h''. (\<forall>x. n \<le> x \<and> x < n1 \<longrightarrow> h'' x = h1 x) \<longrightarrow> stringifyAll h'' [c] = Some [j]" by auto
  from 4(2)[OF p1[symmetric] refl p2] have ih2: "n1 \<le> n2" "\<forall>x. x < n1 \<or> n2 \<le> x \<longrightarrow> h2 x = h1 x"
    "\<forall>x. n1 \<le> x \<and> x < n2 \<longrightarrow> h2 x \<noteq> None"
    "\<forall>h''. (\<forall>x. n1 \<le> x \<and> x < n2 \<longrightarrow> h'' x = h2 x) \<longrightarrow> stringifyAll h'' ds = Some js" by auto
  from 4(3) p1 p2 have res: "cs = c # ds" "h' = h2" "n' = n2" by auto
  have "stringifyAll h'' cs = Some (j # js)"
    if "\<forall>x. n \<le> x \<and> x < n' \<longrightarrow> h'' x = h' x" for h''
  proof -
    from that res ih1(2) ih2(1,2) have "\<forall>x. n \<le> x \<and> x < n1 \<longrightarrow> h'' x = h1 x" by auto
    with ih1(5) have a: "stringifyAll h'' [c] = Some [j]" by blast
    from that res ih1(2) have "\<forall>x. n1 \<le> x \<and> x < n2 \<longrightarrow> h'' x = h2 x" by auto
    with ih2(4) have "stringifyAll h'' ds = Some js" by blast
    with a res show ?thesis by (subst res(1), subst stringifyAll_split) simp
  qed
  moreover have "\<forall>x. x < n \<or> n' \<le> x \<longrightarrow> h' x = h x" using res ih1(2,3) ih2(1,2) by auto
  moreover have "\<forall>x. n \<le> x \<and> x < n' \<longrightarrow> h' x \<noteq> None"
  proof (intro allI impI)
    fix x assume x: "n \<le> x \<and> x < n'"
    show "h' x \<noteq> None"
    proof (cases "x < n1")
      case True
      with x ih1(4) ih2(2) res show ?thesis by auto
    next
      case False
      with x ih2(3) res show ?thesis by auto
    qed
  qed
  ultimately show ?case using res ih1(2) ih2(1) by auto
qed

lemma modify_Some: "h a = Some n \<Longrightarrow> modify a f h = h(a \<mapsto> f n)"
  by (simp add: modify_def)

lemma nodeByPath_Some: "nodeByPath st p = Some (a, n) \<Longrightarrow> heap st a = Some n"
  by (auto simp: nodeByPath_def split: option.splits)

lemma find_None_list_ex: "find P xs = None \<longleftrightarrow> \<not> list_ex P xs"
  by (induction xs) auto

lemma add_to_dir_succeeds:
  assumes dir: "heap st cur = Some dir" "n_body dir = Children cs"
    and tree: "stringify (heap st) cur = Some j" and alloc: "alloc_ok st"
    and leaf: "n_body new = Content s \<or> n_body new = Children []"
  shows "\<exists>h3. add_to_dir st cur new now result =
           Some (result, st\<lparr>heap := h3, nextAddr := Suc (nextAddr st)\<rparr>) \<and>
         size_variant ((heap st)(nextAddr st \<mapsto> new, cur \<mapsto> push_child (nextAddr st) now dir)) h3"
proof -
  define n where "n = nextAddr st"
  define h2 where "h2 = (heap st)(n \<mapsto> new, cur \<mapsto> push_child n now dir)"
  have n_free: "heap st n = None" using alloc by (simp add: alloc_ok_def n_def)
  with dir have ne: "cur \<noteq> n" by auto
  have h2_eq: "modify cur (push_child n now) ((heap st)(n \<mapsto> new)) = h2"
    using dir ne by (simp add: modify_def h2_def)
  from tree dir obtain ks where ks: "stringifyAll (heap st) cs = Some ks"
    by (auto simp: stringify_Some split: Option.bind_splits)
  have 1: "stringifyAll h2 cs = Some ks"
  proof (rule stringifyAll_children_frame[OF dir ks])
    fix x assume "x \<noteq> cur" "heap st x \<noteq> None"
    then show "h2 x = heap st x" using n_free by (auto simp: h2_def)
  qed
  have 2: "\<exists>jn. stringifyAll h2 [n] = Some [jn]"
    using leaf ne by (auto simp: h2_def)
  from 1 2 have "\<exists>js. stringifyAll h2 (cs @ [n]) = Some js"
    by (auto simp: stringifyAll_append simp del: stringifyAll_Cons)
  then obtain js where "stringifyAll h2 (cs @ [n]) = Some js" ..
  from sumChildren_terminates[OF this] obtain t h' where
    t: "sumChildren h2 (cs @ [n]) = Some (t, h')" and sv: "size_variant h2 h'" by auto
  have h2cur: "h2 cur = Some (push_child n now dir)" by (simp add: h2_def)
  have body: "n_body (push_child n now dir) = Children (cs @ [n])"
    using dir by (simp add: push_child_def)
  from size_variant_Some[OF sv h2cur] obtain m where m: "h' cur = Some m" "n_body m = Children (cs @ [n])"
    using body by auto
  then have "is_folder m" by (simp add: is_folder_def)
  from size_variant_set_size[of h' cur m t, OF m(1) this] sv
  have sv3: "size_variant h2 (modify cur (\<lambda>n. n\<lparr>n_size := t\<rparr>) h')"
    by (blast intro: size_variant_trans)
  have "updateFolderSize h2 cur = Some (t, modify cur (\<lambda>n. n\<lparr>n_size := t\<rparr>) h')"
    using h2cur body t by (simp add: updateFolderSize_def)
  then have "add_to_dir st cur new now result =
      Some (result, st\<lparr>heap := modify cur (\<lambda>n. n\<lparr>n_size := t\<rparr>) h', nextAddr := Suc (nextAddr st)\<rparr>)"
    using h2_eq by (simp add: add_to_dir_def Let_def n_def)
  with sv3 show ?thesis unfolding h2_def n_def by blast
qed

lemma size_variant_file:
  "size_variant h h' \<Longrightarrow> h a = Some n \<Longrightarrow> \<not> is_folder n \<Longrightarrow> h' a = Some n"
proof -
  assume sv: "size_variant h h'" and n: "h a = Some n" and f: "\<not> is_folder n"
  from sv have "same_but_size (h a) (h' a)" by (simp add: size_variant_def)
  with n f obtain m where m: "h' a = Some m" "m\<lparr>n_size := 0\<rparr> = n\<lparr>n_size := 0\<rparr>" "n_size m = n_size n"
    by (auto simp: same_but_size_def split: option.splits)
  have "m = m\<lparr>n_size := n_size m\<rparr>" by simp
  also have "\<dots> = (m\<lparr>n_size := 0\<rparr>)\<lparr>n_size := n_size m\<rparr>" by simp
  also have "\<dots> = (n\<lparr>n_size := 0\<rparr>)\<lparr>n_size := n_size n\<rparr>" using m(2,3) by simp
  also have "\<dots> = n" by simp
  finally show ?thesis using m(1) by simp
qed

lemma fields_of_erase:
  assumes "m\<lparr>n_size := 0\<rparr> = n\<lparr>n_size := 0\<rparr>"
  shows "(fields_of m)\<lparr>n_size := 0\<rparr> = (fields_of n)\<lparr>n_size := 0\<rparr>"
proof -
  have "fields_of (m\<lparr>n_size := 0\<rparr>) = fields_of (n\<lparr>n_size := 0\<rparr>)" using assms by (rule arg_cong)
  then show ?thesis by (simp add: fields_of_def)
qed

lemma same_but_size_cases:
  assumes "same_but_size (Some n) y"
  obtains m where "y = Some m" "n_body m = n_body n"
    "(fields_of m)\<lparr>n_size := 0\<rparr> = (fields_of n)\<lparr>n_size := 0\<rparr>" "is_folder n \<or> m = n"
proof -
  from assms obtain m where m: "y = Some m" "m\<lparr>n_size := 0\<rparr> = n\<lparr>n_size := 0\<rparr>"
    "is_folder n \<or> n_size m = n_size n"
    by (auto simp: same_but_size_def split: option.splits)
  have "is_folder n \<or> m = n"
  proof (cases "is_folder n")
    case False
    have "m = (m\<lparr>n_size := 0\<rparr>)\<lparr>n_size := n_size m\<rparr>" by simp
    also have "\<dots> = (n\<lparr>n_size := 0\<rparr>)\<lparr>n_size := n_size n\<rparr>" using m(2,3) False by simp
    also have "\<dots> = n" by simp
    finally show ?thesis by simp
  qed simp
  with m show ?thesis using that erase_size_body fields_of_erase by blast
qed

lemma stringifyAll_size_variant_aux:
  "stringifyAll h as = Some js \<Longrightarrow>
   \<forall>h'. size_variant h h' \<longrightarrow>
     (\<exists>js'. stringifyAll h' as = Some js' \<and> map forget_sizes js' = map forget_sizes js)"
proof (rule stringifyAll.raw_induct
    [where P = "\<lambda>h as js. \<forall>h'. size_variant h h' \<longrightarrow>
     (\<exists>js'. stringifyAll h' as = Some js' \<and> map forget_sizes js' = map forget_sizes js)"])
  fix f :: "heap \<Rightarrow> addr list \<Rightarrow> json list option" and h as js
  assume IH: "\<And>h as js. f h as = Some js \<Longrightarrow> \<forall>h'. size_variant h h' \<longrightarrow>
     (\<exists>js'. stringifyAll h' as = Some js' \<and> map forget_sizes js' = map forget_sizes js)"
  assume body: "(case as of
        [] \<Rightarrow> Some []
      | a # rest \<Rightarrow>
          (case h a of
             None \<Rightarrow> None
           | Some n \<Rightarrow>
               (case n_body n of
                  Children cs \<Rightarrow>
                    Option.bind (f h cs) (\<lambda>ks.
                      Option.bind (f h rest) (\<lambda>js.
                        Some (JNode (fields_of n) (Children ks) # js)))
                | Content s \<Rightarrow>
                    Option.bind (f h rest) (\<lambda>js. Some (JNode (fields_of n) (Content s) # js))))) = Some js"
  show "\<forall>h'. size_variant h h' \<longrightarrow>
     (\<exists>js'. stringifyAll h' as = Some js' \<and> map forget_sizes js' = map forget_sizes js)"
  proof (intro allI impI)
    fix h' assume sv: "size_variant h h'"
    show "\<exists>js'. stringifyAll h' as = Some js' \<and> map forget_sizes js' = map forget_sizes js"
    proof (cases as)
      case Nil
      with body show ?thesis by auto
    next
      case (Cons a rest)
      with body obtain n where n: "h a = Some n" by (auto split: option.splits)
      from sv have "same_but_size (h a) (h' a)" by (simp add: size_variant_def)
      then have "same_but_size (Some n) (h' a)" using n by simp
      then obtain m where m: "h' a = Some m" "n_body m = n_body n"
        "(fields_of m)\<lparr>n_size := 0\<rparr> = (fields_of n)\<lparr>n_size := 0\<rparr>" "is_folder n \<or> m = n"
        by (rule same_but_size_cases)
      show ?thesis
      proof (cases "n_body n")
        case (Content s)
        with body Cons n obtain ks where ks: "f h rest = Some ks"
          and js: "js = JNode (fields_of n) (Content s) # ks"
          by (auto split: Option.bind_splits)
        from IH[OF ks] sv obtain ks' where "stringifyAll h' rest = Some ks'"
          "map forget_sizes ks' = map forget_sizes ks" by blast
        moreover have "m = n" using m(4) Content by (simp add: is_folder_def)
        ultimately show ?thesis using Cons m Content js by simp
      next
        case (Children cs)
        with body Cons n obtain ks ls where ks: "f h cs = Some ks" and ls: "f h rest = Some ls"
          and js: "js = JNode (fields_of n) (Children ks) # ls"
          by (auto split: Option.bind_splits)
        from IH[OF ks] sv obtain ks' where a: "stringifyAll h' cs = Some ks'"
          "map forget_sizes ks' = map forget_sizes ks" by blast
        from IH[OF ls] sv obtain ls' where b: "stringifyAll h' rest = Some ls'"
          "map forget_sizes ls' = map forget_sizes ls" by blast
        from a b Cons m Children js show ?thesis by simp
      qed
    qed
  qed
qed (assumption)

lemma stringify_size_variant:
  assumes "stringifyAll h [a] = Some [j]" "size_variant h h'"
  shows "\<exists>j'. stringify h' a = Some j' \<and> forget_sizes j' = forget_sizes j"
proof -
  from stringifyAll_size_variant_aux[OF assms(1)] assms(2)
  obtain js' where js': "stringifyAll h' [a] = Some js'" "map forget_sizes js' = map forget_sizes [j]"
    by blast
  then obtain j' where "js' = [j']" by auto
  with js' show ?thesis by (simp add: stringify_Some)
qed

subsection \<open>The nodes of a subtree\<close>

lemma getAllNodesOf_split:
  "getAllNodesOf h (a # rest) =
     Option.bind (getAllNodesOf h [a]) (\<lambda>xs. Option.bind (getAllNodesOf h rest) (\<lambda>ys. Some (xs @ ys)))"
  by (auto split: option.splits body.splits Option.bind_splits)

lemma getAllNodesOf_append:
  "getAllNodesOf h (as @ bs) =
     Option.bind (getAllNodesOf h as) (\<lambda>xs. Option.bind (getAllNodesOf h bs) (\<lambda>ys. Some (xs @ ys)))"
proof (induction as)
  case Nil
  then show ?case by (cases "getAllNodesOf h bs") auto
next
  case (Cons a as)
  have "getAllNodesOf h ((a # as) @ bs) =
      Option.bind (getAllNodesOf h [a]) (\<lambda>xs. Option.bind (getAllNodesOf h (as @ bs)) (\<lambda>ys. Some (xs @ ys)))"
    by (simp only: append_Cons getAllNodesOf_split[of h a "as @ bs"])
  also have "\<dots> = Option.bind (getAllNodesOf h [a]) (\<lambda>xs.
      Option.bind (getAllNodesOf h as) (\<lambda>ys. Option.bind (getAllNodesOf h bs) (\<lambda>zs. Some (xs @ ys @ zs))))"
    by (simp only: Cons.IH) (auto split: Option.bind_splits)
  also have "\<dots> = Option.bind (getAllNodesOf h (a # as))
      (\<lambda>xs. Option.bind (getAllNodesOf h bs) (\<lambda>ys. Some (xs @ ys)))"
    by (subst getAllNodesOf_split[of h a as]) (auto split: Option.bind_splits)
  finally show ?case .
qed

text \<open>The traversal reads only the bodies of the nodes it visits.\<close>

lemma getAllNodesOf_frame_aux:
  "getAllNodesOf h as = Some xs \<Longrightarrow>
   \<forall>h'::heap. (\<forall>x\<in>set xs. map_option n_body (h' x) = map_option n_body (h x)) \<longrightarrow>
     getAllNodesOf h' as = Some xs"
proof (rule getAllNodesOf.raw_induct
    [where P = "\<lambda>h as xs. \<forall>h'::heap. (\<forall>x\<in>set xs. map_option n_body (h' x) = map_option n_body (h x)) \<longrightarrow>
     getAllNodesOf h' as = Some xs"])
  fix f :: "heap \<Rightarrow> addr list \<Rightarrow> addr list option" and h as xs
  assume IH: "\<And>h as xs. f h as = Some xs \<Longrightarrow>
     \<forall>h'::heap. (\<forall>x\<in>set xs. map_option n_body (h' x) = map_option n_body (h x)) \<longrightarrow>
     getAllNodesOf h' as = Some xs"
  assume body: "(case as of
        [] \<Rightarrow> Some []
      | a # rest \<Rightarrow>
          (case h a of
             None \<Rightarrow> None
           | Some n \<Rightarrow>
               (case n_body n of
                  Children cs \<Rightarrow>
                    Option.bind (f h cs) (\<lambda>xs.
                      Option.bind (f h rest) (\<lambda>ys. Some (a # xs @ ys)))
                | Content s \<Rightarrow> Option.bind (f h rest) (\<lambda>ys. Some (a # ys))))) = Some xs"
  show "\<forall>h'::heap. (\<forall>x\<in>set xs. map_option n_body (h' x) = map_option n_body (h x)) \<longrightarrow>
     getAllNodesOf h' as = Some xs"
  proof (intro allI impI)
    fix h' :: heap assume agree: "\<forall>x\<in>set xs. map_option n_body (h' x) = map_option n_body (h x)"
    show "getAllNodesOf h' as = Some xs"
    proof (cases as)
      case Nil
      with body show ?thesis by auto
    next
      case (Cons a rest)
      with body obtain n where n: "h a = Some n" by (auto split: option.splits)
      show ?thesis
      proof (cases "n_body n")
        case (Content s)
        with body Cons n obtain ys where ys: "f h rest = Some ys" and xs: "xs = a # ys"
          by (auto split: Option.bind_splits)
        from agree xs n Content obtain m where m: "h' a = Some m" "n_body m = Content s" by auto
        from IH[OF ys] agree xs have "getAllNodesOf h' rest = Some ys" by auto
        with Cons m xs show ?thesis by simp
      next
        case (Children cs)
        with body Cons n obtain us ys where us: "f h cs = Some us" and ys: "f h rest = Some ys"
          and xs: "xs = a # us @ ys"
          by (auto split: Option.bind_splits)
        from agree xs n Children obtain m where m: "h' a = Some m" "n_body m = Children cs" by auto
        from IH[OF us] agree xs have a: "getAllNodesOf h' cs = Some us" by auto
        from IH[OF ys] agree xs have "getAllNodesOf h' rest = Some ys" by auto
        with a Cons m xs show ?thesis by simp
      qed
    qed
  qed
qed (assumption)

lemma getAllNodesOf_frame:
  "getAllNodesOf h as = Some xs \<Longrightarrow>
   (\<And>x. x \<in> set xs \<Longrightarrow> map_option n_body ((h'::heap) x) = map_option n_body (h x)) \<Longrightarrow>
   getAllNodesOf h' as = Some xs"
  using getAllNodesOf_frame_aux by blast

lemma size_variant_body:
  "size_variant h h' \<Longrightarrow> map_option n_body (h' x) = map_option n_body (h x)"
proof -
  assume "size_variant h h'"
  then have "same_but_size (h x) (h' x)" by (simp add: size_variant_def)
  then show ?thesis
    by (auto simp: same_but_size_def split: option.splits dest: erase_size_body)
qed

lemma getAllNodesOf_size_variant:
  "getAllNodesOf h as = Some xs \<Longrightarrow> size_variant h h' \<Longrightarrow> getAllNodesOf h' as = Some xs"
  by (rule getAllNodesOf_frame) (simp_all add: size_variant_body)

text \<open>A tree that has a JSON has a list of nodes.\<close>

lemma getAllNodesOf_defined:
  "stringifyAll h as = Some js \<Longrightarrow> \<exists>xs. getAllNodesOf h as = Some xs"
proof (rule stringifyAll.raw_induct [where P = "\<lambda>h as js. \<exists>xs. getAllNodesOf h as = Some xs"])
  fix f :: "heap \<Rightarrow> addr list \<Rightarrow> json list option" and h as js
  assume IH: "\<And>h as js. f h as = Some js \<Longrightarrow> \<exists>xs. getAllNodesOf h as = Some xs"
  assume body: "(case as of
        [] \<Rightarrow> Some []
      | a # rest \<Rightarrow>
          (case h a of
             None \<Rightarrow> None
           | Some n \<Rightarrow>
               (case n_body n of
                  Children cs \<Rightarrow>
                    Option.bind (f h cs) (\<lambda>ks.
                      Option.bind (f h rest) (\<lambda>js.
                        Some (JNode (fields_of n) (Children ks) # js)))
                | Content s \<Rightarrow>
                    Option.bind (f h rest) (\<lambda>js. Some (JNode (fields_of n) (Content s) # js))))) = Some js"
  show "\<exists>xs. getAllNodesOf h as = Some xs"
  proof (cases as)
    case Nil
    then show ?thesis by simp
  next
    case (Cons a rest)
    with body obtain n where n: "h a = Some n" by (auto split: option.splits)
    show ?thesis
    proof (cases "n_body n")
      case (Content s)
      with body Cons n obtain ks where "f h rest = Some ks" by (auto split: Option.bind_splits)
      from IH[OF this] Cons n Content show ?thesis by auto
    next
      case (Children cs)
      with body Cons n obtain ks ls where ks: "f h cs = Some ks" and ls: "f h rest = Some ls"
        by (auto split: Option.bind_splits)
      from IH[OF ks] IH[OF ls] Cons n Children show ?thesis by auto
    qed
  qed
qed (assumption)

text \<open>\<open>updateFolderSize\<close> writes only to nodes it visits.\<close>

lemma sumChildren_outside_aux:
  "sumChildren h cs = Some r \<Longrightarrow>
   size_variant h (snd r) \<and>
   (\<forall>xs. getAllNodesOf h cs = Some xs \<longrightarrow> (\<forall>x. x \<notin> set xs \<longrightarrow> snd r x = h x))"
proof (rule sumChildren.raw_induct [where P = "\<lambda>h cs r. size_variant h (snd r) \<and>
   (\<forall>xs. getAllNodesOf h cs = Some xs \<longrightarrow> (\<forall>x. x \<notin> set xs \<longrightarrow> snd r x = h x))"])
  fix f :: "heap \<Rightarrow> addr list \<Rightarrow> (nat \<times> heap) option" and h cs r
  assume IH: "\<And>h cs r. f h cs = Some r \<Longrightarrow> size_variant h (snd r) \<and>
   (\<forall>xs. getAllNodesOf h cs = Some xs \<longrightarrow> (\<forall>x. x \<notin> set xs \<longrightarrow> snd r x = h x))"
  assume body: "(case cs of
        [] \<Rightarrow> Some (0, h)
      | child # rest \<Rightarrow>
          (case h child of
             None \<Rightarrow> None
           | Some n \<Rightarrow>
               (case n_body n of
                  Children gs \<Rightarrow>
                    Option.bind (f h gs) (\<lambda>(totalSize, h1).
                      Option.bind (f (modify child (\<lambda>n. n\<lparr>n_size := totalSize\<rparr>) h1) rest)
                        (\<lambda>(t, h'). Some (totalSize + t, h')))
                | Content s \<Rightarrow>
                    Option.bind (f h rest) (\<lambda>(t, h'). Some (n_size n + t, h'))))) = Some r"
  show "size_variant h (snd r) \<and>
   (\<forall>xs. getAllNodesOf h cs = Some xs \<longrightarrow> (\<forall>x. x \<notin> set xs \<longrightarrow> snd r x = h x))"
  proof (cases cs)
    case Nil
    with body show ?thesis by auto
  next
    case (Cons child rest)
    with body obtain n where n: "h child = Some n" by (auto split: option.splits)
    show ?thesis
    proof (cases "n_body n")
      case (Content s)
      with body Cons n obtain t h' where t: "f h rest = Some (t, h')" and r: "r = (n_size n + t, h')"
        by (auto split: Option.bind_splits)
      from IH[OF t] have ih: "size_variant h h'"
        "\<forall>xs. getAllNodesOf h rest = Some xs \<longrightarrow> (\<forall>x. x \<notin> set xs \<longrightarrow> h' x = h x)" by auto
      have "\<forall>x. x \<notin> set xs \<longrightarrow> h' x = h x" if "getAllNodesOf h cs = Some xs" for xs
      proof -
        from that Cons n Content obtain ys where "getAllNodesOf h rest = Some ys" "xs = child # ys"
          by (auto split: Option.bind_splits)
        with ih(2) show ?thesis by auto
      qed
      with ih(1) r show ?thesis by auto
    next
      case (Children gs)
      with body Cons n obtain s h1 t h' where a: "f h gs = Some (s, h1)"
        and b: "f (modify child (\<lambda>n. n\<lparr>n_size := s\<rparr>) h1) rest = Some (t, h')"
        and r: "r = (s + t, h')"
        by (auto split: Option.bind_splits)
      let ?h2 = "modify child (\<lambda>n. n\<lparr>n_size := s\<rparr>) h1"
      from IH[OF a] have ih1: "size_variant h h1"
        "\<forall>xs. getAllNodesOf h gs = Some xs \<longrightarrow> (\<forall>x. x \<notin> set xs \<longrightarrow> h1 x = h x)" by auto
      from size_variant_Some[OF ih1(1) n] obtain m where m: "h1 child = Some m" "n_body m = n_body n"
        by auto
      then have "is_folder m" using Children by (simp add: is_folder_def)
      from size_variant_set_size[of h1 child m s, OF m(1) this]
      have 2: "size_variant h1 ?h2" .
      from IH[OF b] have ih2: "size_variant ?h2 h'"
        "\<forall>xs. getAllNodesOf ?h2 rest = Some xs \<longrightarrow> (\<forall>x. x \<notin> set xs \<longrightarrow> h' x = ?h2 x)" by auto
      have sv2: "size_variant h ?h2" using ih1(1) 2 by (blast intro: size_variant_trans)
      have sv: "size_variant h h'" using sv2 ih2(1) by (blast intro: size_variant_trans)
      have "\<forall>x. x \<notin> set xs \<longrightarrow> h' x = h x" if "getAllNodesOf h cs = Some xs" for xs
      proof -
        from that Cons n Children obtain us ys where us: "getAllNodesOf h gs = Some us"
          and ys: "getAllNodesOf h rest = Some ys" and xs: "xs = child # us @ ys"
          by (auto split: Option.bind_splits)
        from getAllNodesOf_size_variant[OF ys sv2] have "getAllNodesOf ?h2 rest = Some ys" .
        with ih2(2) have 3: "\<forall>x. x \<notin> set ys \<longrightarrow> h' x = ?h2 x" by blast
        show ?thesis
        proof (intro allI impI)
          fix x assume "x \<notin> set xs"
          with xs have x: "x \<noteq> child" "x \<notin> set us" "x \<notin> set ys" by auto
          from 3 x(3) have "h' x = ?h2 x" by blast
          also have "\<dots> = h1 x" using x(1) by (simp add: modify_def split: option.splits)
          also have "\<dots> = h x" using ih1(2) us x(2) by blast
          finally show "h' x = h x" .
        qed
      qed
      with sv r show ?thesis by auto
    qed
  qed
qed (assumption)

lemma parse_nodes:
  "parse j (h, n) = (a, h', n') \<Longrightarrow> \<exists>xs. getAllNodesOf h' [a] = Some xs \<and> set xs \<subseteq> {n..<n'}"
  "parseAll js (h, n) = (cs, h', n') \<Longrightarrow> \<exists>xs. getAllNodesOf h' cs = Some xs \<and> set xs \<subseteq> {n..<n'}"
proof (induction j "(h, n)" and js "(h, n)" arbitrary: h n a h' n' and h n cs h' n'
    rule: parse_parseAll.induct)
  case (1 f s h n)
  then show ?case by auto
next
  case (2 f js h n)
  obtain cs h1 n1 where p: "parseAll js (h, Suc n) = (cs, h1, n1)"
    by (cases "parseAll js (h, Suc n)") auto
  from 2(1)[OF p] obtain xs where xs: "getAllNodesOf h1 cs = Some xs" "set xs \<subseteq> {Suc n..<n1}"
    by auto
  from 2(2) p have res: "a = n" "h' = h1(n \<mapsto> node_of f (Children cs))" "n' = n1" by auto
  have "getAllNodesOf h' cs = Some xs"
    by (rule getAllNodesOf_frame[OF xs(1), where h' = h']) (use xs(2) res in auto)
  then have "getAllNodesOf h' [a] = Some (n # xs)" using res by simp
  moreover note parse_region(2)[OF p, THEN conjunct1]
  ultimately show ?case using xs(2) res by auto
next
  case (3 h n)
  then show ?case by auto
next
  case (4 j js h n)
  obtain c h1 n1 where p1: "parse j (h, n) = (c, h1, n1)" by (cases "parse j (h, n)") auto
  obtain ds h2 n2 where p2: "parseAll js (h1, n1) = (ds, h2, n2)"
    by (cases "parseAll js (h1, n1)") auto
  from 4(1)[OF p1] obtain xs where xs: "getAllNodesOf h1 [c] = Some xs" "set xs \<subseteq> {n..<n1}" by auto
  from 4(2)[OF p1[symmetric] refl p2] obtain ys where ys: "getAllNodesOf h2 ds = Some ys"
    "set ys \<subseteq> {n1..<n2}" by auto
  from 4(3) p1 p2 have res: "cs = c # ds" "h' = h2" "n' = n2" by auto
  note lt1 = parse_region(1)[OF p1, THEN conjunct2, THEN conjunct1]
    and le2 = parse_region(2)[OF p2, THEN conjunct1]
    and old2 = parse_region(2)[OF p2, THEN conjunct2, THEN conjunct1]
  have "getAllNodesOf h2 [c] = Some xs"
    by (rule getAllNodesOf_frame[OF xs(1), where h' = h2]) (use xs(2) old2 in auto)
  then have "getAllNodesOf h2 (c # ds) = Some (xs @ ys)"
    using ys(1) by (subst getAllNodesOf_split) simp
  moreover have "set (xs @ ys) \<subseteq> {n..<n2}" using xs(2) ys(2) lt1 le2 by auto
  ultimately show ?case using res by auto
qed

text \<open>The root of a parsed tree can get other fields: the JSON and the nodes of the tree
  below it stay.\<close>

lemma parse_root:
  assumes "parse (JNode f b) (h, n) = (a, h', n')"
  shows "\<exists>b'. a = n \<and> n < n' \<and> h' n = Some (node_of f b') \<and>
     (\<forall>x. x < n \<or> n' \<le> x \<longrightarrow> h' x = h x) \<and>
     (\<forall>h'' f'. (\<forall>x. n < x \<and> x < n' \<longrightarrow> map_option n_body (h'' x) = map_option n_body (h' x)) \<and>
          h'' n = Some (node_of f' b') \<longrightarrow>
        (\<exists>xs. getAllNodesOf h'' [n] = Some xs \<and> set xs \<subseteq> {n..<n'})) \<and>
     (\<forall>h'' f'. (\<forall>x. n < x \<and> x < n' \<longrightarrow> h'' x = h' x) \<and> h'' n = Some (node_of f' b') \<longrightarrow>
        stringifyAll h'' [n] = Some [JNode f' b])"
proof (cases b)
  case (Content s)
  with assms show ?thesis by (auto intro!: exI[of _ "Content s"])
next
  case (Children js)
  obtain cs h1 n1 where p: "parseAll js (h, Suc n) = (cs, h1, n1)"
    by (cases "parseAll js (h, Suc n)") auto
  from assms Children p have res: "a = n" "h' = h1(n \<mapsto> node_of f (Children cs))" "n' = n1" by auto
  note le = parse_region(2)[OF p, THEN conjunct1]
    and old = parse_region(2)[OF p, THEN conjunct2, THEN conjunct1]
    and det = parse_region(2)[OF p, THEN conjunct2, THEN conjunct2, THEN conjunct2]
  from parse_nodes(2)[OF p] obtain xs where xs: "getAllNodesOf h1 cs = Some xs" "set xs \<subseteq> {Suc n..<n1}"
    by auto
  have 1: "\<exists>ys. getAllNodesOf h'' [n] = Some ys \<and> set ys \<subseteq> {n..<n'}"
    if "\<forall>x. n < x \<and> x < n' \<longrightarrow> map_option n_body (h'' x) = map_option n_body (h' x)"
      "h'' n = Some (node_of f' (Children cs))" for h'' :: heap and f'
  proof -
    have "getAllNodesOf h'' cs = Some xs"
      by (rule getAllNodesOf_frame[OF xs(1), where h' = h'']) (use xs(2) res that(1) in auto)
    then have "getAllNodesOf h'' [n] = Some (n # xs)" using that(2) by simp
    then show ?thesis using xs(2) le res by auto
  qed
  have 2: "stringifyAll h'' [n] = Some [JNode f' b]"
    if "\<forall>x. n < x \<and> x < n' \<longrightarrow> h'' x = h' x" "h'' n = Some (node_of f' (Children cs))" for h'' f'
  proof -
    from that(1) res have "\<forall>x. Suc n \<le> x \<and> x < n1 \<longrightarrow> h'' x = h1 x" by auto
    with det have "stringifyAll h'' cs = Some js" by blast
    with that(2) Children show ?thesis by simp
  qed
  have "\<forall>x. x < n \<or> n' \<le> x \<longrightarrow> h' x = h x" using old le res by auto
  moreover have "n < n'" using le res by auto
  moreover have "h' n = Some (node_of f (Children cs))" using res by simp
  ultimately show ?thesis using res(1) 1 2 by (intro exI[of _ "Children cs"]) blast
qed

lemma stringifyAll_children_defined:
  "stringifyAll h cs = Some js \<Longrightarrow> c \<in> set cs \<Longrightarrow> h c \<noteq> None"
proof (induction cs arbitrary: js)
  case Nil
  then show ?case by simp
next
  case (Cons a cs)
  from Cons.prems(1) obtain ks where "h a \<noteq> None" "stringifyAll h cs = Some ks"
    by (auto split: option.splits body.splits Option.bind_splits)
  with Cons show ?case by auto
qed

lemma node_of_update:
  "(node_of f b)\<lparr>n_id := i\<rparr>\<lparr>n_name := m\<rparr> = node_of (f\<lparr>n_id := i, n_name := m\<rparr>) b"
  by (simp add: node_of_def)

lemma size_variant_None: "size_variant h h' \<Longrightarrow> h x = None \<Longrightarrow> h' x = None"
proof -
  assume sv: "size_variant h h'" and n: "h x = None"
  from sv have "same_but_size (h x) (h' x)" by (simp add: size_variant_def)
  with n show ?thesis by (simp add: same_but_size_def)
qed

lemma size_variant_fields:
  assumes "size_variant h h'" "h a = Some n"
  shows "\<exists>m. h' a = Some m \<and> n_id m = n_id n \<and> n_name m = n_name n \<and> n_body m = n_body n"
proof -
  from assms(1) have "same_but_size (h a) (h' a)" by (simp add: size_variant_def)
  then have "same_but_size (Some n) (h' a)" using assms(2) by simp
  then obtain m where m: "h' a = Some m" "n_body m = n_body n"
    "(fields_of m)\<lparr>n_size := 0\<rparr> = (fields_of n)\<lparr>n_size := 0\<rparr>"
    by (rule same_but_size_cases)
  from m(3) have "n_id ((fields_of m)\<lparr>n_size := 0\<rparr>) = n_id ((fields_of n)\<lparr>n_size := 0\<rparr>)"
    "n_name ((fields_of m)\<lparr>n_size := 0\<rparr>) = n_name ((fields_of n)\<lparr>n_size := 0\<rparr>)"
    by simp_all
  then have "n_id m = n_id n" "n_name m = n_name n" by (simp_all add: fields_of_def)
  with m show ?thesis by simp
qed

lemma pasteCopy_succeeds:
  assumes clip: "stringify (heap st) (cb_node cb) = Some (JNode f b)"
    and dest: "heap st d = Some dn" "n_body dn = Children cs"
    and tree: "stringify (heap st) d = Some jd" and alloc: "alloc_ok st"
  shows "\<exists>h5 n1 xs zs j' root dn'.
      pasteCopy st cb d newId now = Some (Done, st\<lparr>heap := h5, nextAddr := n1, clipboard := None\<rparr>) \<and>
      nextAddr st < n1 \<and> (\<forall>x\<ge>n1. h5 x = None) \<and>
      (\<forall>x. x < nextAddr st \<and> x \<noteq> d \<longrightarrow> same_but_size (heap st x) (h5 x)) \<and>
      getAllNodes h5 d = Some zs \<and>
      (\<forall>x. x < nextAddr st \<and> x \<notin> set zs \<longrightarrow> h5 x = heap st x) \<and>
      h5 d = Some dn' \<and> n_body dn' = Children (cs @ [nextAddr st]) \<and>
      h5 (nextAddr st) = Some root \<and> n_id root = newId \<and>
      n_name root = generateUniqueName (heap st) d (n_name f) \<and>
      getAllNodes h5 (nextAddr st) = Some xs \<and> set xs \<subseteq> {nextAddr st..<n1} \<and>
      stringify h5 (nextAddr st) = Some j' \<and>
      forget_sizes j' = forget_sizes
        (JNode (f\<lparr>n_id := newId, n_name := generateUniqueName (heap st) d (n_name f)\<rparr>) b)"
proof -
  define n where "n = nextAddr st"
  define newName where "newName = generateUniqueName (heap st) d (n_name f)"
  define f' where "f' = f\<lparr>n_id := newId, n_name := newName\<rparr>"
  have free: "\<forall>x\<ge>n. heap st x = None" using alloc by (simp add: alloc_ok_def n_def)
  have d_lt: "d < n"
  proof (rule ccontr)
    assume "\<not> d < n"
    then have "heap st d = None" using free by simp
    with dest(1) show False by simp
  qed
  obtain new h1 n1 where p: "parse (JNode f b) (heap st, n) = (new, h1, n1)"
    by (cases "parse (JNode f b) (heap st, n)") auto
  from parse_root[OF p] obtain b' where r: "new = n" "n < n1" "h1 n = Some (node_of f b')"
    "\<forall>x. x < n \<or> n1 \<le> x \<longrightarrow> h1 x = heap st x"
    "\<forall>h'' f'. (\<forall>x. n < x \<and> x < n1 \<longrightarrow> map_option n_body (h'' x) = map_option n_body (h1 x)) \<and>
          h'' n = Some (node_of f' b') \<longrightarrow>
        (\<exists>xs. getAllNodesOf h'' [n] = Some xs \<and> set xs \<subseteq> {n..<n1})"
    "\<forall>h'' f'. (\<forall>x. n < x \<and> x < n1 \<longrightarrow> h'' x = h1 x) \<and> h'' n = Some (node_of f' b') \<longrightarrow>
        stringifyAll h'' [n] = Some [JNode f' b]"
    by blast
  from tree dest obtain ks where ks: "stringifyAll (heap st) cs = Some ks"
    by (auto simp: stringify_Some split: Option.bind_splits)
  \<comment> \<open>the writes before \<open>updateFolderSize\<close>\<close>
  define h2 where "h2 = modify new (\<lambda>n. n\<lparr>n_id := newId\<rparr>) h1"
  define h3 where "h3 = modify new (\<lambda>n. n\<lparr>n_name := generateUniqueName h2 d (n_name n)\<rparr>) h2"
  define h4 where "h4 = modify d (push_child new now) h3"
  have h2: "h2 = h1(n \<mapsto> (node_of f b')\<lparr>n_id := newId\<rparr>)"
    using r(1,3) by (simp add: h2_def modify_def)
  have names: "child_names h2 d = child_names (heap st) d"
  proof -
    have "h2 d = heap st d" using d_lt r(4) by (simp add: h2)
    moreover have "h2 c = heap st c" if "c \<in> set cs" for c
    proof -
      from stringifyAll_children_defined[OF ks that] free have "c < n" by (metis not_le)
      then show ?thesis using r(4) by (simp add: h2)
    qed
    ultimately show ?thesis using dest
      by (simp add: child_names_def List.map_filter_def cong: map_cong filter_cong)
  qed
  have uniq: "generateUniqueName h2 d (n_name f) = newName"
    by (simp add: generateUniqueName_def names newName_def)
  have h3: "h3 = h1(n \<mapsto> node_of f' b')"
    using r(1) uniq by (simp add: h3_def h2 modify_def f'_def node_of_def)
  have h4: "h4 = h1(n \<mapsto> node_of f' b', d \<mapsto> push_child n now dn)"
    using r(1,4) d_lt dest(1) by (simp add: h4_def h3 modify_def)
  have old: "h4 x = heap st x" if "x < n" "x \<noteq> d" for x
    using that r(4) by (simp add: h4)
  have h4n: "h4 n = Some (node_of f' b')" using d_lt by (simp add: h4)
  have h4d: "h4 d = Some (push_child n now dn)" by (simp add: h4)
  have body_d: "n_body (push_child n now dn) = Children (cs @ [n])"
    using dest(2) by (simp add: push_child_def)
  \<comment> \<open>the tree below the destination, with the new node\<close>
  have s_cs: "stringifyAll h4 cs = Some ks"
  proof (rule stringifyAll_children_frame[OF dest ks])
    fix x assume "x \<noteq> d" "heap st x \<noteq> None"
    then show "h4 x = heap st x" using free old by (metis not_le)
  qed
  have agree: "\<forall>x. n < x \<and> x < n1 \<longrightarrow> h4 x = h1 x" using d_lt by (simp add: h4)
  have s_new: "stringifyAll h4 [n] = Some [JNode f' b]"
    using r(6)[THEN spec, THEN spec, THEN mp, of h4 f'] agree h4n by simp
  have "\<exists>xs. getAllNodesOf h4 [n] = Some xs \<and> set xs \<subseteq> {n..<n1}"
    using r(5)[THEN spec, THEN spec, THEN mp, of h4 f'] agree h4n by simp
  then obtain xs4 where xs4: "getAllNodesOf h4 [n] = Some xs4" "set xs4 \<subseteq> {n..<n1}" by blast
  have s_all: "stringifyAll h4 (cs @ [n]) = Some (ks @ [JNode f' b])"
    using s_cs s_new by (simp add: stringifyAll_append del: stringifyAll_Cons)
  from getAllNodesOf_defined[OF s_all] obtain ws where ws: "getAllNodesOf h4 (cs @ [n]) = Some ws" ..
  from sumChildren_terminates[OF s_all] obtain t h4' where
    t: "sumChildren h4 (cs @ [n]) = Some (t, h4')" and sv: "size_variant h4 h4'" by auto
  define h5 where "h5 = modify d (\<lambda>n. n\<lparr>n_size := t\<rparr>) h4'"
  from size_variant_Some[OF sv h4d] obtain m where m: "h4' d = Some m" "n_body m = Children (cs @ [n])"
    using body_d by auto
  then have "is_folder m" by (simp add: is_folder_def)
  from size_variant_set_size[of h4' d m t, OF m(1) this] sv
  have sv5: "size_variant h4 h5" unfolding h5_def by (blast intro: size_variant_trans)
  have ufs: "updateFolderSize h4 d = Some (t, h5)"
    using h4d body_d t by (simp add: updateFolderSize_def h5_def)
  have run: "pasteCopy st cb d newId now =
      Some (Done, st\<lparr>heap := h5, nextAddr := n1, clipboard := None\<rparr>)"
    using clip p ufs
    by (simp add: pasteCopy_def Let_def n_def[symmetric] h2_def[symmetric] h3_def[symmetric]
        h4_def[symmetric])
  \<comment> \<open>the facts about the final store\<close>
  have c1: "\<forall>x\<ge>n1. h5 x = None"
  proof (intro allI impI)
    fix x assume "n1 \<le> x"
    then have "h4 x = None" using r(2,4) free d_lt by (simp add: h4)
    then show "h5 x = None" by (rule size_variant_None[OF sv5])
  qed
  have c2: "\<forall>x. x < n \<and> x \<noteq> d \<longrightarrow> same_but_size (heap st x) (h5 x)"
  proof (intro allI impI)
    fix x assume "x < n \<and> x \<noteq> d"
    then have "h4 x = heap st x" using old by simp
    moreover have "same_but_size (h4 x) (h5 x)" using sv5 by (simp add: size_variant_def)
    ultimately show "same_but_size (heap st x) (h5 x)" by simp
  qed
  have "getAllNodesOf h4 [d] = Some (d # ws)" using h4d body_d ws by simp
  from getAllNodesOf_size_variant[OF this sv5] have c3: "getAllNodes h5 d = Some (d # ws)"
    by (simp add: getAllNodes_def)
  have c4: "\<forall>x. x < n \<and> x \<notin> set (d # ws) \<longrightarrow> h5 x = heap st x"
  proof (intro allI impI)
    fix x assume x: "x < n \<and> x \<notin> set (d # ws)"
    then have "h5 x = h4' x" by (simp add: h5_def modify_def split: option.splits)
    also have "\<dots> = h4 x" using sumChildren_outside_aux[OF t] ws x by auto
    also have "\<dots> = heap st x" using old x by simp
    finally show "h5 x = heap st x" .
  qed
  from size_variant_fields[OF sv5 h4d] obtain dn' where c5: "h5 d = Some dn'"
    "n_body dn' = Children (cs @ [n])" using body_d by auto
  from size_variant_fields[OF sv5 h4n] obtain root where c6: "h5 n = Some root" "n_id root = newId"
    "n_name root = newName" by (auto simp: node_of_def f'_def)
  from getAllNodesOf_size_variant[OF xs4(1) sv5] have c7: "getAllNodes h5 n = Some xs4"
    by (simp add: getAllNodes_def)
  from stringify_size_variant[OF s_new sv5] obtain j' where c8: "stringify h5 n = Some j'"
    "forget_sizes j' = forget_sizes (JNode f' b)" by auto
  from run r(2) c1 c2 c3 c4 c5 c6 c7 xs4(2) c8 show ?thesis
    unfolding n_def[symmetric] newName_def[symmetric] f'_def[symmetric] by blast
qed

subsection \<open>Paste\<close>

text \<open>The JSON of a tree is read from the nodes of the tree only.\<close>

lemma stringifyAll_nodes_frame_aux:
  "getAllNodesOf h as = Some xs \<Longrightarrow>
   \<forall>h'. (\<forall>x\<in>set xs. h' x = h x) \<longrightarrow> stringifyAll h' as = stringifyAll h as"
proof (rule getAllNodesOf.raw_induct
    [where P = "\<lambda>h as xs. \<forall>h'. (\<forall>x\<in>set xs. h' x = h x) \<longrightarrow> stringifyAll h' as = stringifyAll h as"])
  fix f :: "heap \<Rightarrow> addr list \<Rightarrow> addr list option" and h as xs
  assume IH: "\<And>h as xs. f h as = Some xs \<Longrightarrow>
     \<forall>h'. (\<forall>x\<in>set xs. h' x = h x) \<longrightarrow> stringifyAll h' as = stringifyAll h as"
  assume body: "(case as of
        [] \<Rightarrow> Some []
      | a # rest \<Rightarrow>
          (case h a of
             None \<Rightarrow> None
           | Some n \<Rightarrow>
               (case n_body n of
                  Children cs \<Rightarrow>
                    Option.bind (f h cs) (\<lambda>xs.
                      Option.bind (f h rest) (\<lambda>ys. Some (a # xs @ ys)))
                | Content s \<Rightarrow> Option.bind (f h rest) (\<lambda>ys. Some (a # ys))))) = Some xs"
  show "\<forall>h'. (\<forall>x\<in>set xs. h' x = h x) \<longrightarrow> stringifyAll h' as = stringifyAll h as"
  proof (intro allI impI)
    fix h' :: heap assume agree: "\<forall>x\<in>set xs. h' x = h x"
    show "stringifyAll h' as = stringifyAll h as"
    proof (cases as)
      case Nil
      then show ?thesis by simp
    next
      case (Cons a rest)
      with body obtain n where n: "h a = Some n" by (auto split: option.splits)
      show ?thesis
      proof (cases "n_body n")
        case (Content s)
        with body Cons n obtain ys where ys: "f h rest = Some ys" and xs: "xs = a # ys"
          by (auto split: Option.bind_splits)
        from agree xs n have m: "h' a = Some n" by auto
        have "\<forall>x\<in>set ys. h' x = h x" using agree xs by simp
        from IH[OF ys, THEN spec, THEN mp, OF this]
        have "stringifyAll h' rest = stringifyAll h rest" .
        with Cons m n Content show ?thesis by simp
      next
        case (Children cs)
        with body Cons n obtain us ys where us: "f h cs = Some us" and ys: "f h rest = Some ys"
          and xs: "xs = a # us @ ys"
          by (auto split: Option.bind_splits)
        from agree xs n have m: "h' a = Some n" by auto
        have "\<forall>x\<in>set us. h' x = h x" using agree xs by simp
        from IH[OF us, THEN spec, THEN mp, OF this]
        have a: "stringifyAll h' cs = stringifyAll h cs" .
        have "\<forall>x\<in>set ys. h' x = h x" using agree xs by simp
        from IH[OF ys, THEN spec, THEN mp, OF this]
        have "stringifyAll h' rest = stringifyAll h rest" .
        with a Cons m n Children show ?thesis by simp
      qed
    qed
  qed
qed (assumption)

lemma stringify_nodes_frame:
  assumes "getAllNodes h a = Some xs" and "\<And>x. x \<in> set xs \<Longrightarrow> h' x = h x"
  shows "stringify h' a = stringify h a"
proof -
  from assms(1) have g: "getAllNodesOf h [a] = Some xs" by (simp only: getAllNodes_def)
  from assms(2) have "\<forall>x\<in>set xs. h' x = h x" by blast
  with stringifyAll_nodes_frame_aux[OF g, THEN spec, of h']
  have "stringifyAll h' [a] = stringifyAll h [a]" by (rule mp)
  then show ?thesis by (simp only: stringify_def)
qed

lemma modify_other: "x \<noteq> a \<Longrightarrow> modify a g h x = h x"
  by (simp add: modify_def split: option.splits)

lemma pasteItem_copy:
  assumes "clipboard st = Some cb" "cb_action cb = Copy"
    and "nodeByPath st dest = Some (d, dn)" "n_body dn = Children cs"
    and "checkPermission st dn ''write''"
  shows "pasteItem st newId now dest = pasteCopy st cb d newId now"
  using assms by (simp add: pasteItem_def is_folder_def)

lemma uniqueLoop_free: "name \<notin> set names \<Longrightarrow> uniqueLoop names b name c = name"
  by (subst uniqueLoop.simps) simp

lemma candidate_x_txt: "candidate ''x.txt'' 1 = ''x (1).txt''"
  by code_simp

subsection \<open>Doubles\<close>

lemma round_half_even_upper: "of_int (round_half_even y) \<le> y + 1 / 2"
proof -
  define f where "f = \<lfloor>y\<rfloor>"
  have "of_int f \<le> y" by (simp add: f_def)
  then show ?thesis unfolding round_half_even_def Let_def f_def[symmetric] by auto
qed

lemma round_half_even_of_int [simp]: "round_half_even (of_int z) = z"
  by (simp add: round_half_even_def)

lemma round_half_even_mono: "x \<le> y \<Longrightarrow> round_half_even x \<le> round_half_even y"
proof -
  assume xy: "x \<le> y"
  then have f: "\<lfloor>x\<rfloor> \<le> \<lfloor>y\<rfloor>" by (rule floor_mono)
  have ux: "round_half_even x \<le> \<lfloor>x\<rfloor> + 1" and ly: "\<lfloor>y\<rfloor> \<le> round_half_even y"
    by (auto simp: round_half_even_def Let_def)
  show ?thesis
  proof (cases "\<lfloor>x\<rfloor> = \<lfloor>y\<rfloor>")
    case True
    with xy show ?thesis by (auto simp: round_half_even_def Let_def)
  next
    case False
    with f have "\<lfloor>x\<rfloor> + 1 \<le> \<lfloor>y\<rfloor>" by simp
    with ux ly show ?thesis by linarith
  qed
qed

lemma two_powi_pos [simp]: "0 < (2::rat) powi e"
  by (simp add: zero_less_power_int)

lemma two_powi_add: "(2::rat) powi (a + b) = 2 powi a * 2 powi b"
  by (rule power_int_add) simp

lemma two_powi_diff: "(2::rat) powi (a - b) = 2 powi a / 2 powi b"
  by (rule power_int_diff) simp

lemma two_powi_mult: "a + b = c \<Longrightarrow> (2::rat) powi a * 2 powi b = 2 powi c"
  by (simp add: two_powi_add[symmetric])

lemma two_powi_div: "a - b = c \<Longrightarrow> (2::rat) powi a / 2 powi b = 2 powi c"
  by (simp add: two_powi_diff[symmetric])

lemma two_powi_mono: "a \<le> b \<Longrightarrow> (2::rat) powi a \<le> 2 powi b"
  by (rule power_int_increasing) simp_all

lemma two_powi_strict: "a < b \<Longrightarrow> (2::rat) powi a < 2 powi b"
  by (rule power_int_strict_increasing) simp_all

lemma two_powi_nat: "0 \<le> j \<Longrightarrow> (2::rat) powi j = of_int (2 ^ nat j)"
  by (simp add: power_int_def)

text \<open>The binade of a positive number.\<close>

lemma binade_bounds:
  assumes "0 < x"
  shows "2 powi binade x \<le> x" "x < 2 powi (binade x + 1)"
proof -
  obtain a b where q: "quotient_of x = (a, b)" by (cases "quotient_of x")
  from quotient_of_denom_pos[OF q] have b: "0 < b" .
  from quotient_of_div[OF q] have x: "x = of_int a / of_int b" .
  with assms b have a: "0 < a" by (simp add: zero_less_divide_iff)
  define la where "la = bitlen a"
  define lb where "lb = bitlen b"
  from bitlen_bounds[OF a] have ba: "2 ^ nat (la - 1) \<le> a" "a < 2 ^ nat la" by (simp_all add: la_def)
  from bitlen_bounds[OF b] have bb: "2 ^ nat (lb - 1) \<le> b" "b < 2 ^ nat lb" by (simp_all add: lb_def)
  have la: "1 \<le> la" using a by (simp add: la_def bitlen_def floorlog_def)
  have lb: "1 \<le> lb" using b by (simp add: lb_def bitlen_def floorlog_def)
  have pa: "(2::rat) powi (la - 1) \<le> of_int a" "of_int a < (2::rat) powi la"
  proof -
    have "(2::rat) powi (la - 1) = of_int (2 ^ nat (la - 1))" using la by (simp add: two_powi_nat)
    also have "\<dots> \<le> of_int a" using ba(1) by (simp only: of_int_le_iff)
    finally show "(2::rat) powi (la - 1) \<le> of_int a" .
    have "(of_int a :: rat) < of_int (2 ^ nat la)" using ba(2) by (simp only: of_int_less_iff)
    also have "\<dots> = 2 powi la" using la by (simp add: two_powi_nat)
    finally show "of_int a < (2::rat) powi la" .
  qed
  have pb: "(2::rat) powi (lb - 1) \<le> of_int b" "of_int b < (2::rat) powi lb"
  proof -
    have "(2::rat) powi (lb - 1) = of_int (2 ^ nat (lb - 1))" using lb by (simp add: two_powi_nat)
    also have "\<dots> \<le> of_int b" using bb(1) by (simp only: of_int_le_iff)
    finally show "(2::rat) powi (lb - 1) \<le> of_int b" .
    have "(of_int b :: rat) < of_int (2 ^ nat lb)" using bb(2) by (simp only: of_int_less_iff)
    also have "\<dots> = 2 powi lb" using lb by (simp add: two_powi_nat)
    finally show "of_int b < (2::rat) powi lb" .
  qed
  have bpos: "(0::rat) < of_int b" using b by simp
  have low: "2 powi (la - lb - 1) \<le> x"
  proof -
    have "(2::rat) powi (la - lb - 1) * of_int b \<le> 2 powi (la - lb - 1) * 2 powi lb"
      using pb(2) by (intro mult_left_mono) simp_all
    also have "\<dots> = 2 powi (la - 1)" by (rule two_powi_mult) simp
    also have "\<dots> \<le> of_int a" by (fact pa(1))
    finally show ?thesis using bpos by (simp add: x pos_le_divide_eq)
  qed
  have up: "x < 2 powi (la - lb + 1)"
  proof -
    have "of_int a < (2::rat) powi la" by (fact pa(2))
    also have "\<dots> = 2 powi (la - lb + 1) * 2 powi (lb - 1)" by (rule two_powi_mult[symmetric]) simp
    also have "\<dots> \<le> 2 powi (la - lb + 1) * of_int b"
      using pb(1) by (intro mult_left_mono) simp_all
    finally show ?thesis using bpos by (simp add: x pos_divide_less_eq)
  qed
  have e: "binade x = (if 2 powi (la - lb) \<le> x then la - lb else la - lb - 1)"
    by (simp add: binade_def q la_def lb_def Let_def)
  show "2 powi binade x \<le> x" using low by (simp add: e)
  show "x < 2 powi (binade x + 1)" using up by (simp add: e not_le)
qed

lemma binade_unique:
  assumes "0 < x" "2 powi e \<le> x" "x < 2 powi (e + 1)"
  shows "binade x = e"
proof (rule antisym)
  show "binade x \<le> e"
  proof (rule ccontr)
    assume "\<not> binade x \<le> e"
    then have "e + 1 \<le> binade x" by simp
    then have "(2::rat) powi (e + 1) \<le> 2 powi binade x" by (rule two_powi_mono)
    with binade_bounds(1)[OF assms(1)] assms(3) show False by simp
  qed
  show "e \<le> binade x"
  proof (rule ccontr)
    assume "\<not> e \<le> binade x"
    then have "binade x + 1 \<le> e" by simp
    then have "(2::rat) powi (binade x + 1) \<le> 2 powi e" by (rule two_powi_mono)
    with binade_bounds(2)[OF assms(1)] assms(2) show False by simp
  qed
qed

lemma binade_mono:
  assumes "0 < x" "x \<le> y"
  shows "binade x \<le> binade y"
proof (rule ccontr)
  assume "\<not> binade x \<le> binade y"
  then have "binade y + 1 \<le> binade x" by simp
  then have "(2::rat) powi (binade y + 1) \<le> 2 powi binade x" by (rule two_powi_mono)
  also have "\<dots> \<le> x" using assms(1) by (rule binade_bounds(1))
  finally have "2 powi (binade y + 1) \<le> y" using assms(2) by simp
  moreover from assms have "0 < y" by simp
  ultimately show False using binade_bounds(2)[of y] by simp
qed

lemma quantum_pos [simp]: "0 < quantum x"
  by (simp add: quantum_def)

lemma quantum_neq0 [simp]: "quantum x \<noteq> 0"
  by (simp add: quantum_def)

lemma quantum_nonneg [simp]: "0 \<le> quantum x"
  by (rule less_imp_le) (rule quantum_pos)

lemma fround_0 [simp]: "fround 0 = 0"
  by (simp add: fround_def)

lemma fround_pos: "0 < x \<Longrightarrow> fround x = quantum x * of_int (round_half_even (x / quantum x))"
  by (simp add: fround_def)

lemma round_half_even_nonneg: "0 \<le> y \<Longrightarrow> 0 \<le> round_half_even y"
  using round_half_even_mono[of 0 y] round_half_even_of_int[of 0] by simp

lemma fround_nonneg: "0 \<le> x \<Longrightarrow> 0 \<le> fround x"
proof (cases "x = 0")
  case True
  then show ?thesis by simp
next
  case False
  assume "0 \<le> x"
  with False have x: "0 < x" by simp
  then have "0 \<le> x / quantum x" by simp
  then have "0 \<le> round_half_even (x / quantum x)" by (rule round_half_even_nonneg)
  then show ?thesis by (simp add: fround_pos[OF x])
qed

text \<open>The rounding error is at most half of the spacing.\<close>

lemma fround_upper: "0 < x \<Longrightarrow> fround x \<le> x + quantum x / 2"
proof -
  assume x: "0 < x"
  have "quantum x * of_int (round_half_even (x / quantum x)) \<le> quantum x * (x / quantum x + 1 / 2)"
    by (intro mult_left_mono round_half_even_upper) simp
  also have "\<dots> = x + quantum x / 2" by (simp add: algebra_simps)
  finally show ?thesis by (simp only: fround_pos[OF x])
qed

text \<open>Rounding stays within the binade, ends included.\<close>

lemma fround_le_binade:
  assumes "0 < x"
  shows "fround x \<le> 2 powi (max (binade x) (- 1022) + 1)"
proof -
  define E where "E = max (binade x) (- 1022)"
  have q: "quantum x = 2 powi (E - 52)" by (simp add: quantum_def E_def)
  have "x < 2 powi (binade x + 1)" using assms by (rule binade_bounds(2))
  also have "\<dots> \<le> 2 powi (E + 1)" by (rule two_powi_mono) (simp add: E_def)
  finally have "x < 2 powi (E + 1)" .
  then have "x / quantum x \<le> 2 powi (E + 1) / 2 powi (E - 52)"
    unfolding q by (intro divide_right_mono) simp_all
  also have "\<dots> = 2 powi 53" by (rule two_powi_div) simp
  also have "\<dots> = of_int (2 ^ 53)" by (simp add: two_powi_nat)
  finally have "round_half_even (x / quantum x) \<le> round_half_even (of_int (2 ^ 53))"
    by (rule round_half_even_mono)
  then have "round_half_even (x / quantum x) \<le> 2 ^ 53" by (simp only: round_half_even_of_int)
  then have "(of_int (round_half_even (x / quantum x)) :: rat) \<le> of_int (2 ^ 53)"
    by (simp only: of_int_le_iff)
  then have "quantum x * of_int (round_half_even (x / quantum x)) \<le> quantum x * of_int (2 ^ 53)"
    by (intro mult_left_mono) simp_all
  also have "\<dots> = 2 powi (E - 52) * 2 powi 53" by (simp add: q two_powi_nat)
  also have "\<dots> = 2 powi (E + 1)" by (rule two_powi_mult) simp
  finally show ?thesis by (simp only: fround_pos[OF assms] E_def)
qed

lemma fround_ge_binade:
  assumes "0 < x" "- 1022 \<le> binade x"
  shows "2 powi binade x \<le> fround x"
proof -
  define E where "E = binade x"
  have q: "quantum x = 2 powi (E - 52)" using assms(2) by (simp add: quantum_def E_def max_def)
  have "2 powi E \<le> x" unfolding E_def using assms(1) by (rule binade_bounds(1))
  then have "2 powi E / 2 powi (E - 52) \<le> x / quantum x"
    unfolding q by (intro divide_right_mono) simp_all
  moreover have "(2::rat) powi E / 2 powi (E - 52) = 2 powi 52" by (rule two_powi_div) simp
  moreover have "(2::rat) powi 52 = of_int (2 ^ 52)" by (simp add: two_powi_nat)
  ultimately have "of_int (2 ^ 52) \<le> x / quantum x" by simp
  then have "round_half_even (of_int (2 ^ 52)) \<le> round_half_even (x / quantum x)"
    by (rule round_half_even_mono)
  then have "2 ^ 52 \<le> round_half_even (x / quantum x)" by (simp only: round_half_even_of_int)
  then have "(of_int (2 ^ 52) :: rat) \<le> of_int (round_half_even (x / quantum x))"
    by (simp only: of_int_le_iff)
  then have "quantum x * of_int (2 ^ 52) \<le> quantum x * of_int (round_half_even (x / quantum x))"
    by (intro mult_left_mono) simp_all
  moreover have "quantum x * of_int (2 ^ 52) = 2 powi (E - 52) * 2 powi 52" by (simp add: q two_powi_nat)
  moreover have "(2::rat) powi (E - 52) * 2 powi 52 = 2 powi E" by (rule two_powi_mult) simp
  ultimately show ?thesis by (simp only: fround_pos[OF assms(1)] E_def)
qed

text \<open>Rounding is monotone.\<close>

lemma fround_mono:
  assumes "0 \<le> x" "x \<le> y"
  shows "fround x \<le> fround y"
proof (cases "x = 0")
  case True
  with assms fround_nonneg[of y] show ?thesis by simp
next
  case False
  with assms have x: "0 < x" and y: "0 < y" by simp_all
  define Ex where "Ex = max (binade x) (- 1022)"
  define Ey where "Ey = max (binade y) (- 1022)"
  from binade_mono[OF x assms(2)] have le: "Ex \<le> Ey" by (simp add: Ex_def Ey_def)
  show ?thesis
  proof (cases "Ex = Ey")
    case True
    then have q: "quantum x = quantum y" by (simp add: quantum_def Ex_def Ey_def)
    have "x / quantum y \<le> y / quantum y" using assms(2) by (intro divide_right_mono) simp_all
    then have "round_half_even (x / quantum y) \<le> round_half_even (y / quantum y)"
      by (rule round_half_even_mono)
    then have "(of_int (round_half_even (x / quantum y)) :: rat) \<le> of_int (round_half_even (y / quantum y))"
      by (simp only: of_int_le_iff)
    then have "quantum y * of_int (round_half_even (x / quantum y))
        \<le> quantum y * of_int (round_half_even (y / quantum y))"
      by (intro mult_left_mono) simp_all
    then show ?thesis by (simp only: fround_pos[OF x] fround_pos[OF y] q)
  next
    case False
    with le have lt: "Ex + 1 \<le> Ey" by simp
    then have ey: "binade y = Ey" "- 1022 \<le> binade y"
      by (simp_all add: Ex_def Ey_def max_def split: if_splits)
    have "fround x \<le> 2 powi (Ex + 1)" unfolding Ex_def using x by (rule fround_le_binade)
    also have "\<dots> \<le> 2 powi Ey" using lt by (rule two_powi_mono)
    also have "\<dots> \<le> fround y" using fround_ge_binade[OF y ey(2)] by (simp only: ey(1))
    finally show ?thesis .
  qed
qed

text \<open>An integer below \<open>2^53\<close> times a power of two that is not below the least one is a
  double.\<close>

lemma fround_representable:
  assumes "0 \<le> m" "m < 2 ^ 53" "- 1074 \<le> k"
  shows "fround (of_int m * 2 powi k) = of_int m * 2 powi k"
proof (cases "m = 0")
  case True
  then show ?thesis by simp
next
  case False
  with assms(1) have m: "0 < m" by simp
  define x :: rat where "x = of_int m * 2 powi k"
  have x: "0 < x" using m by (simp add: x_def)
  define E where "E = max (binade x) (- 1022)"
  have q: "quantum x = 2 powi (E - 52)" by (simp add: quantum_def E_def)
  have "(of_int m :: rat) < of_int (2 ^ 53)" using assms(2) by (simp only: of_int_less_iff)
  also have "\<dots> = 2 powi 53" by (simp add: two_powi_nat)
  finally have "x < 2 powi 53 * 2 powi k" unfolding x_def by (intro mult_strict_right_mono) simp_all
  then have up: "x < 2 powi (53 + k)" by (simp only: two_powi_add)
  have "binade x \<le> 52 + k"
  proof (rule ccontr)
    assume "\<not> binade x \<le> 52 + k"
    then have "53 + k \<le> binade x" by simp
    then have "(2::rat) powi (53 + k) \<le> 2 powi binade x" by (rule two_powi_mono)
    with binade_bounds(1)[OF x] up show False by simp
  qed
  with assms(3) have j: "0 \<le> k - (E - 52)" by (simp add: E_def)
  define j where "j = k - (E - 52)"
  have "x / quantum x = of_int m * (2 powi k / 2 powi (E - 52))" unfolding q by (simp add: x_def)
  also have "\<dots> = of_int m * 2 powi j" using two_powi_div[of k "E - 52" j] by (simp add: j_def)
  also have "\<dots> = of_int (m * 2 ^ nat j)" using j by (simp add: two_powi_nat j_def)
  finally have "round_half_even (x / quantum x) = m * 2 ^ nat j" by (simp only: round_half_even_of_int)
  then have "fround x = 2 powi (E - 52) * of_int (m * 2 ^ nat j)"
    by (simp only: fround_pos[OF x] q)
  also have "\<dots> = of_int m * (2 powi (E - 52) * 2 powi j)" using j by (simp add: two_powi_nat j_def)
  also have "\<dots> = of_int m * 2 powi k" using two_powi_mult[of "E - 52" j k] by (simp add: j_def)
  finally show ?thesis by (simp only: x_def)
qed

lemma fround_of_nat: "n < 2 ^ 53 \<Longrightarrow> fround (of_nat n) = of_nat n"
proof -
  assume "n < 2 ^ 53"
  then have "int n < 2 ^ 53" by (metis of_nat_less_iff of_nat_numeral of_nat_power)
  from fround_representable[of "int n" 0, OF _ this] show ?thesis by simp
qed

lemma fround_half_of_nat: "n < 2 ^ 53 \<Longrightarrow> fround (of_nat n / 2) = of_nat n / 2"
proof -
  assume "n < 2 ^ 53"
  then have "int n < 2 ^ 53" by (metis of_nat_less_iff of_nat_numeral of_nat_power)
  from fround_representable[of "int n" "- 1", OF _ this] show ?thesis
    by (simp add: power_int_minus field_simps)
qed

lemma is_draw_le:
  assumes "is_draw r"
  shows "r \<le> 1 - 2 powi (- 53)"
proof (cases "r < 1 / 2")
  case True
  have "(2::rat) powi (- 53) \<le> 2 powi (- 1)" by (rule two_powi_mono) simp
  then have "(2::rat) powi (- 53) \<le> 1 / 2" by (simp add: power_int_minus field_simps)
  with True show ?thesis by simp
next
  case False
  from assms have r: "fround r = r" "r < 1" by (simp_all add: is_draw_def)
  from False have pos: "0 < r" by simp
  have "binade r = - 1"
    using pos False r(2) by (intro binade_unique) (simp_all add: power_int_minus field_simps)
  then have q: "quantum r = 2 powi (- 53)" by (simp add: quantum_def)
  define z where "z = round_half_even (r / quantum r)"
  have rz: "r = 2 powi (- 53) * of_int z" using fround_pos[OF pos] r(1) by (simp add: z_def q)
  have one: "(2::rat) powi (- 53) * 2 powi 53 = 1"
    using two_powi_mult[of "- 53" 53 0] by simp
  have "(2::rat) powi (- 53) * of_int z < 2 powi (- 53) * 2 powi 53"
    unfolding one rz[symmetric] by (fact r(2))
  then have "(of_int z :: rat) < 2 powi 53" by (simp only: mult_less_cancel_left_pos two_powi_pos)
  also have "\<dots> = of_int (2 ^ 53)" by (simp add: two_powi_nat)
  finally have "z < 2 ^ 53" by (simp only: of_int_less_iff)
  then have "z \<le> 2 ^ 53 - 1" by simp
  then have "(of_int z :: rat) \<le> of_int (2 ^ 53 - 1)" by (simp only: of_int_le_iff)
  then have "2 powi (- 53) * (of_int z :: rat) \<le> 2 powi (- 53) * of_int (2 ^ 53 - 1)"
    by (intro mult_left_mono) simp_all
  also have "\<dots> = 2 powi (- 53) * (2 powi 53 - 1)" by (simp add: two_powi_nat)
  also have "\<dots> = 1 - 2 powi (- 53)" unfolding right_diff_distrib one by simp
  finally show ?thesis by (simp only: rz[symmetric])
qed

text \<open>\<open>Math.floor(Math.random() * n)\<close> is an index below \<open>n\<close>.\<close>

lemma fmul_draw_less:
  assumes "is_draw r" "0 < n"
  shows "fmul r (of_nat n) < of_nat n"
proof (cases "r * of_nat n = 0")
  case True
  with assms(2) show ?thesis by (simp add: fmul_def)
next
  case False
  define u :: rat where "u = 2 powi (- 53)"
  have u: "0 < u" "u < 1"
  proof -
    show "0 < u" by (simp add: u_def)
    have "(2::rat) powi (- 53) < 2 powi 0" by (rule two_powi_strict) simp
    then show "u < 1" by (simp add: u_def)
  qed
  define x where "x = r * of_nat n"
  from assms(1) have r0: "0 \<le> r" by (simp add: is_draw_def)
  then have "0 \<le> x" by (simp add: x_def)
  moreover from False have "x \<noteq> 0" by (simp add: x_def)
  ultimately have x: "0 < x" by simp
  have xn: "x \<le> (1 - u) * of_nat n"
    unfolding x_def u_def using is_draw_le[OF assms(1)] by (intro mult_right_mono) simp_all
  have n1: "(1::rat) \<le> of_nat n" using assms(2) by simp
  have "fround x < of_nat n"
  proof (cases "- 1022 \<le> binade x")
    case True
    then have "quantum x = 2 powi (binade x - 52)" by (simp add: quantum_def max_def)
    also have "\<dots> = 2 powi binade x * 2 powi (- 52)" by (rule two_powi_mult[symmetric]) simp
    also have "\<dots> \<le> x * 2 powi (- 52)" using binade_bounds(1)[OF x] by (intro mult_right_mono) simp_all
    finally have "quantum x / 2 \<le> x * (2 powi (- 52) / 2)" by simp
    also have "(2::rat) powi (- 52) / 2 = u"
      by (simp add: u_def power_int_minus field_simps)
    finally have "x + quantum x / 2 \<le> x * (1 + u)" by (simp add: algebra_simps)
    with fround_upper[OF x] have "fround x \<le> x * (1 + u)" by simp
    also have "\<dots> \<le> ((1 - u) * of_nat n) * (1 + u)" using xn u by (intro mult_right_mono) simp_all
    also have "\<dots> = of_nat n * (1 - u * u)" by (simp add: algebra_simps)
    also have "\<dots> < of_nat n * 1" using u assms(2) by (intro mult_strict_left_mono) simp_all
    finally show ?thesis by simp
  next
    case False
    then have b: "binade x + 1 \<le> - 1022" by simp
    from False have q: "quantum x = 2 powi (- 1074)" by (simp add: quantum_def max_def)
    have "x < 2 powi (binade x + 1)" using x by (rule binade_bounds(2))
    also have "\<dots> \<le> 2 powi (- 1022)" using b by (rule two_powi_mono)
    also have "\<dots> \<le> 2 powi (- 2)" by (rule two_powi_mono) simp
    finally have "x < 1 / 4" by (simp add: power_int_minus)
    moreover have "quantum x \<le> 1 / 4"
    proof -
      have "(2::rat) powi (- 1074) \<le> 2 powi (- 2)" by (rule two_powi_mono) simp
      then show ?thesis by (simp add: q power_int_minus)
    qed
    ultimately have "x + quantum x / 2 < 1" by simp
    with fround_upper[OF x] n1 show ?thesis by simp
  qed
  then show ?thesis by (simp add: fmul_def x_def)
qed

lemma random_index:
  assumes "is_draw r" "0 < n"
  shows "nat \<lfloor>fmul r (of_nat n)\<rfloor> < n"
proof -
  have "of_int \<lfloor>fmul r (of_nat n)\<rfloor> \<le> fmul r (of_nat n)" by simp
  also have "\<dots> < of_nat n" using assms by (rule fmul_draw_less)
  finally have "\<lfloor>fmul r (of_nat n)\<rfloor> < int n" by (simp add: of_int_less_iff[where 'a = rat, symmetric] del: of_int_less_iff)
  with assms(2) show ?thesis by simp
qed

lemma literal_facts:
  "fround (fround (3 / 10)) = fround (3 / 10)" "fround (fround (2 / 10)) = fround (2 / 10)"
  "fround (fround (2 / 10) + fround (3 / 10)) = 1 / 2"
  "1 / 5 \<le> fround (2 / 10)" "0 \<le> fround (3 / 10)"
  by code_simp+

lemma level_of_bounds:
  assumes "is_draw r"
  shows "1 / 5 \<le> level_of r" "level_of r \<le> 1 / 2"
proof -
  from assms have r: "0 \<le> r" "r \<le> 1" by (simp_all add: is_draw_def)
  define t where "t = fmul r (fround (3 / 10))"
  have "0 \<le> r * fround (3 / 10)" using r(1) literal_facts(5) by simp
  then have t0: "0 \<le> t" unfolding t_def fmul_def by (rule fround_nonneg)
  have "r * fround (3 / 10) \<le> 1 * fround (3 / 10)"
    using r(2) literal_facts(5) by (intro mult_right_mono)
  then have "r * fround (3 / 10) \<le> fround (3 / 10)" by simp
  with \<open>0 \<le> r * fround (3 / 10)\<close> have "fround (r * fround (3 / 10)) \<le> fround (fround (3 / 10))"
    by (rule fround_mono)
  then have t1: "t \<le> fround (3 / 10)" by (simp only: t_def fmul_def literal_facts(1))
  have c0: "0 \<le> fround (2 / 10)" using literal_facts(4) by simp
  have l: "level_of r = fround (fround (2 / 10) + t)" by (simp add: level_of_def fadd_def t_def)
  have "fround (fround (2 / 10)) \<le> fround (fround (2 / 10) + t)"
    using c0 t0 by (intro fround_mono) simp_all
  then have "fround (2 / 10) \<le> level_of r" by (simp only: l literal_facts(2))
  with literal_facts(4) show "1 / 5 \<le> level_of r" by simp
  have "fround (fround (2 / 10) + t) \<le> fround (fround (2 / 10) + fround (3 / 10))"
    using c0 t0 t1 by (intro fround_mono) simp_all
  then show "level_of r \<le> 1 / 2" by (simp only: l literal_facts(3))
qed

lemma writes_count_bounds:
  assumes "is_draw r" "len < 2 ^ 53"
  shows "len div 5 \<le> writes_count r len" "writes_count r len \<le> len div 2"
proof -
  note lv = level_of_bounds[OF assms(1)]
  define x where "x = of_nat len * level_of r"
  have w: "writes_count r len = nat \<lfloor>fround x\<rfloor>" by (simp add: writes_count_def fmul_def x_def)
  have x0: "0 \<le> x" using lv(1) by (simp add: x_def)
  have "x \<le> of_nat len * (1 / 2)" unfolding x_def using lv(2) by (intro mult_left_mono) simp_all
  then have "x \<le> of_nat len / 2" by simp
  with x0 have "fround x \<le> fround (of_nat len / 2)" by (rule fround_mono)
  then have "fround x \<le> of_nat len / 2" by (simp only: fround_half_of_nat[OF assms(2)])
  then have "\<lfloor>fround x\<rfloor> \<le> \<lfloor>(of_nat len :: rat) / 2\<rfloor>" by (rule floor_mono)
  also have "\<lfloor>(of_nat len :: rat) / 2\<rfloor> = \<lfloor>(of_nat len :: rat) / of_nat 2\<rfloor>" by simp
  also have "\<dots> = int (len div 2)" by (rule floor_divide_of_nat_eq)
  finally show "writes_count r len \<le> len div 2" unfolding w by linarith
  define c where "c = len div 5"
  have c53: "c < 2 ^ 53" using assms(2) unfolding c_def by (rule le_less_trans[OF div_le_dividend])
  have "c * 5 \<le> len" by (simp add: c_def)
  then have "(of_nat (c * 5) :: rat) \<le> of_nat len" by (simp only: of_nat_le_iff)
  then have "(of_nat c :: rat) \<le> of_nat len * (1 / 5)" by simp
  also have "\<dots> \<le> x" unfolding x_def using lv(1) by (intro mult_left_mono) simp_all
  finally have "fround (of_nat c) \<le> fround x" by (intro fround_mono) simp_all
  then have "of_nat c \<le> fround x" by (simp only: fround_of_nat[OF c53])
  then have "int c \<le> \<lfloor>fround x\<rfloor>" by (simp add: le_floor_iff)
  then show "len div 5 \<le> writes_count r len" unfolding w c_def by linarith
qed

text \<open>\<open>Math.floor(Math.random() * 256)\<close> is the code of a character.\<close>

lemma random_char_code: "is_draw r \<Longrightarrow> nat \<lfloor>fmul r 256\<rfloor> < 256"
  using random_index[of r 256] by simp

subsection \<open>Corruption\<close>

lemma differences_card: "differences s s' = card {i. i < length s \<and> s ! i \<noteq> s' ! i}"
proof -
  have "differences s s' = card (set (filter (\<lambda>i. s ! i \<noteq> s' ! i) [0..<length s]))"
    unfolding differences_def by (rule distinct_card[symmetric]) simp
  also have "set (filter (\<lambda>i. s ! i \<noteq> s' ! i) [0..<length s]) = {i. i < length s \<and> s ! i \<noteq> s' ! i}"
    by auto
  finally show ?thesis .
qed

lemma differences_refl [simp]: "differences s s = 0"
  by (simp add: differences_def)

lemma differences_update: "differences s0 (s[pos := c]) \<le> Suc (differences s0 s)"
proof -
  have "{i. i < length s0 \<and> s0 ! i \<noteq> s[pos := c] ! i}
      \<subseteq> insert pos {i. i < length s0 \<and> s0 ! i \<noteq> s ! i}"
    by (auto simp: nth_list_update split: if_splits)
  then have "card {i. i < length s0 \<and> s0 ! i \<noteq> s[pos := c] ! i}
      \<le> card (insert pos {i. i < length s0 \<and> s0 ! i \<noteq> s ! i})"
    by (rule card_mono[rotated]) simp
  also have "\<dots> \<le> Suc (card {i. i < length s0 \<and> s0 ! i \<noteq> s ! i})"
    by (simp add: card_insert_if)
  finally show ?thesis by (simp only: differences_card)
qed

lemma apply_writes_Nil [simp]: "apply_writes [] s = s"
  by (simp add: apply_writes_def)

lemma apply_writes_Cons [simp]: "apply_writes ((pos, c) # ws) s = apply_writes ws (s[pos := c])"
  by (simp add: apply_writes_def)

lemma length_apply_writes [simp]: "length (apply_writes ws s) = length s"
  by (induction ws arbitrary: s) auto

lemma differences_apply_writes:
  "differences s0 (apply_writes ws s) \<le> differences s0 s + length ws"
proof (induction ws arbitrary: s)
  case Nil
  show ?case by simp
next
  case (Cons w ws)
  obtain pos c where w: "w = (pos, c)" by (cases w)
  from Cons.IH[of "s[pos := c]"] differences_update[of s0 s pos c]
  show ?case by (simp add: w)
qed

lemma length_writes_at [simp]: "length (writes_at rnd k w len) = w"
  by (simp add: writes_at_def)

lemma writes_at_0 [simp]: "writes_at rnd k 0 len = []"
  by (simp add: writes_at_def)

lemma writes_at_Suc:
  "writes_at rnd k (Suc j) len =
     (nat \<lfloor>fmul (rnd k) (of_nat len)\<rfloor>, char_of (nat \<lfloor>fmul (rnd (k + 1)) 256\<rfloor>))
       # writes_at rnd (k + 2) j len"
proof -
  have "[0..<Suc j] = 0 # map Suc [0..<j]" by (simp add: upt_conv_Cons map_Suc_upt del: upt_Suc)
  then show ?thesis by (simp add: writes_at_def comp_def del: upt_Suc)
qed

text \<open>The inner loop makes the writes of the closed form.\<close>

lemma corruptContent_eq:
  "corruptContent rnd k j s = (apply_writes (writes_at rnd k j (length s)) s, k + 2 * j)"
proof (induction j arbitrary: k s)
  case 0
  show ?case by simp
next
  case (Suc j)
  show ?case by (simp add: Let_def Suc.IH writes_at_Suc)
qed

lemma fmul_0 [simp]: "fmul 0 x = 0"
  by (simp add: fmul_def)

lemma writes_count_0 [simp]: "writes_count r 0 = 0"
  by (simp add: writes_count_def)

lemma writes_of_Nil [simp]: "writes_of rnd k [] = []"
  by (simp add: writes_of_def)

text \<open>The writes to one chosen file.\<close>

lemma corruptNode_eq:
  assumes "n_body n = Content s"
  shows "fst (corruptNode rnd k n)
    = n\<lparr>n_corrupted := True, n_body := Content (apply_writes (writes_of rnd k s) s)\<rparr>"
proof (cases "s = []")
  case True
  have "fst (corruptNode rnd k n) = n\<lparr>n_corrupted := True\<rparr>"
    using assms True by (simp add: corruptNode_def)
  also have "\<dots> = n\<lparr>n_corrupted := True, n_body := Content s\<rparr>" using assms by simp
  finally show ?thesis using True by simp
next
  case False
  then show ?thesis
    using assms
    by (simp add: corruptNode_def Let_def corruptContent_eq writes_of_def writes_count_def level_of_def)
qed

lemma writes_in_range:
  assumes draws: "\<forall>k. is_draw (rnd k)" and p: "p \<in> fst ` set (writes_of rnd k s)"
  shows "p < length s"
proof -
  from p obtain j where j: "j < writes_count (rnd k) (length s)"
      "p = nat \<lfloor>fmul (rnd (k + 1 + 2 * j)) (of_nat (length s))\<rfloor>"
    by (auto simp: writes_of_def writes_at_def)
  have "s \<noteq> []" using j(1) by (cases s) simp_all
  then have "0 < length s" by simp
  moreover from draws have "is_draw (rnd (k + 1 + 2 * j))" by simp
  ultimately show ?thesis unfolding j(2) by (intro random_index)
qed

lemma count_list_remove_at:
  assumes "i < length xs"
  shows "count_list xs x = count_list (remove_at i xs) x + (if x = xs ! i then 1 else 0)"
proof -
  from assms have "xs = take i xs @ xs ! i # drop (Suc i) xs" by (rule id_take_nth_drop)
  then have "count_list xs x = count_list (take i xs @ xs ! i # drop (Suc i) xs) x" by simp
  then show ?thesis by (simp add: remove_at_def)
qed

lemma count_list_pos: "0 < count_list xs x \<longleftrightarrow> x \<in> set xs"
  using count_list_0_iff[of xs x] by auto

lemma distinct_count_list: "distinct xs \<longleftrightarrow> (\<forall>x. count_list xs x \<le> 1)"
proof (induction xs)
  case Nil
  show ?case by simp
next
  case (Cons a xs)
  show ?case
  proof
    assume d: "distinct (a # xs)"
    then have "a \<notin> set xs" "\<forall>x. count_list xs x \<le> 1" using Cons.IH by simp_all
    moreover from this(1) have "count_list xs a = 0" by (simp add: count_list_0_iff)
    ultimately show "\<forall>x. count_list (a # xs) x \<le> 1" by simp
  next
    assume c: "\<forall>x. count_list (a # xs) x \<le> 1"
    then have "count_list (a # xs) a \<le> 1" by blast
    then have "count_list xs a = 0" by simp
    then have "a \<notin> set xs" by (simp add: count_list_0_iff)
    moreover have "\<forall>x. count_list xs x \<le> 1"
    proof
      fix x
      from c have "count_list (a # xs) x \<le> 1" by blast
      then show "count_list xs x \<le> 1" by (simp split: if_splits)
    qed
    ultimately show "distinct (a # xs)" using Cons.IH by simp
  qed
qed

text \<open>The outer loop.\<close>

lemma corruptLoop_facts:
  assumes draws: "\<forall>k. is_draw (rnd k)"
  shows "i \<le> length fileNodes \<Longrightarrow>
    \<forall>a\<in>set fileNodes. \<exists>n s. h a = Some n \<and> n_body n = Content s \<Longrightarrow>
    \<exists>chosen h' corrupted'. corruptLoop rnd k i fileNodes h corrupted = (Done, h', corrupted') \<and>
      length chosen = i \<and>
      (\<forall>a. count_list chosen a \<le> count_list fileNodes a) \<and>
      (\<forall>a. a \<notin> set chosen \<longrightarrow> h' a = h a) \<and>
      (\<forall>a\<in>set chosen. corrupted_version (h a) (h' a)) \<and>
      (distinct fileNodes \<longrightarrow> (\<forall>a\<in>set chosen. corrupted_once rnd (h a) (h' a)))"
proof (induction i arbitrary: k fileNodes h corrupted)
  case 0
  have "corruptLoop rnd k 0 fileNodes h corrupted = (Done, h, corrupted) \<and>
      length ([]::addr list) = 0 \<and>
      (\<forall>a. count_list [] a \<le> count_list fileNodes a) \<and>
      (\<forall>a. a \<notin> set [] \<longrightarrow> h a = h a) \<and>
      (\<forall>a\<in>set []. corrupted_version (h a) (h a)) \<and>
      (distinct fileNodes \<longrightarrow> (\<forall>a\<in>set []. corrupted_once rnd (h a) (h a)))" by simp
  then show ?case by blast
next
  case (Suc i)
  define ri where "ri = nat \<lfloor>fmul (rnd k) (of_nat (length fileNodes))\<rfloor>"
  define a where "a = fileNodes ! ri"
  from Suc.prems(1) have pos: "0 < length fileNodes" by (cases fileNodes) simp_all
  from draws have "is_draw (rnd k)" by simp
  from random_index[OF this pos] have ri: "ri < length fileNodes" by (simp add: ri_def)
  then have a_in: "a \<in> set fileNodes" by (simp add: a_def)
  with Suc.prems(2) obtain n s where n: "h a = Some n" "n_body n = Content s" by blast
  define s1 where "s1 = apply_writes (writes_of rnd (k + 1) s) s"
  define n' where "n' = n\<lparr>n_corrupted := True, n_body := Content s1\<rparr>"
  obtain n0 k' where cn: "corruptNode rnd (k + 1) n = (n0, k')" by (cases "corruptNode rnd (k + 1) n")
  with corruptNode_eq[OF n(2), of rnd "k + 1"] have cn': "corruptNode rnd (k + 1) n = (n', k')"
    by (simp add: n'_def s1_def)
  have ls1: "length s1 = length s" by (simp add: s1_def)
  define rest where "rest = remove_at ri fileNodes"
  define h1 where "h1 = h(a \<mapsto> n')"
  have cnt: "\<And>x. count_list fileNodes x = count_list rest x + (if x = a then 1 else 0)"
    unfolding rest_def a_def using ri by (rule count_list_remove_at)
  have rest_sub: "set rest \<subseteq> set fileNodes"
  proof
    fix x assume "x \<in> set rest"
    then have "0 < count_list rest x" by (simp only: count_list_pos)
    with cnt[of x] have "0 < count_list fileNodes x" by simp
    then show "x \<in> set fileNodes" by (simp only: count_list_pos)
  qed
  have e: "corruptLoop rnd k (Suc i) fileNodes h corrupted
      = corruptLoop rnd k' i rest h1 (corrupted @ [n_name n])"
    using ri n(1) cn'
    by (simp add: ri_def[symmetric] a_def[symmetric] rest_def h1_def Let_def)
  have "length rest = length fileNodes - 1" using ri by (simp add: rest_def remove_at_def)
  then have p1: "i \<le> length rest" using Suc.prems(1) by simp
  have p2: "\<forall>x\<in>set rest. \<exists>n s. h1 x = Some n \<and> n_body n = Content s"
  proof
    fix x assume "x \<in> set rest"
    with rest_sub have "x \<in> set fileNodes" by blast
    with Suc.prems(2) obtain m t where "h x = Some m" "n_body m = Content t" by blast
    then show "\<exists>n s. h1 x = Some n \<and> n_body n = Content s"
      by (cases "x = a") (simp_all add: h1_def n'_def)
  qed
  from Suc.IH[OF p1 p2, of k' "corrupted @ [n_name n]"]
  obtain chosen h' corrupted' where r:
      "corruptLoop rnd k' i rest h1 (corrupted @ [n_name n]) = (Done, h', corrupted')"
      "length chosen = i"
      "\<forall>x. count_list chosen x \<le> count_list rest x"
      "\<forall>x. x \<notin> set chosen \<longrightarrow> h' x = h1 x"
      "\<forall>x\<in>set chosen. corrupted_version (h1 x) (h' x)"
      "distinct rest \<longrightarrow> (\<forall>x\<in>set chosen. corrupted_once rnd (h1 x) (h' x))"
    by (elim exE conjE) (rule that; assumption)
  have c1: "corruptLoop rnd k (Suc i) fileNodes h corrupted = (Done, h', corrupted')"
    unfolding e by (fact r(1))
  have c2: "length (a # chosen) = Suc i" using r(2) by simp
  have c3: "\<forall>x. count_list (a # chosen) x \<le> count_list fileNodes x"
  proof
    fix x
    from r(3) have "count_list chosen x \<le> count_list rest x" by blast
    with cnt[of x] show "count_list (a # chosen) x \<le> count_list fileNodes x" by simp
  qed
  have c4: "\<forall>x. x \<notin> set (a # chosen) \<longrightarrow> h' x = h x"
  proof (intro allI impI)
    fix x assume "x \<notin> set (a # chosen)"
    then have "x \<notin> set chosen" "x \<noteq> a" by auto
    with r(4) have "h' x = h1 x" by blast
    with \<open>x \<noteq> a\<close> show "h' x = h x" by (simp add: h1_def)
  qed
  have first: "corrupted_version (h a) (h1 a)"
    unfolding corrupted_version_def using n ls1 by (auto simp: h1_def n'_def)
  have c5: "\<forall>x\<in>set (a # chosen). corrupted_version (h x) (h' x)"
  proof
    fix x assume x: "x \<in> set (a # chosen)"
    show "corrupted_version (h x) (h' x)"
    proof (cases "x \<in> set chosen")
      case False
      with x have xa: "x = a" by simp
      from False r(4) have "h' x = h1 x" by blast
      with first show ?thesis by (simp add: xa)
    next
      case True
      with r(5) have v: "corrupted_version (h1 x) (h' x)" by blast
      show ?thesis
      proof (cases "x = a")
        case False
        with v show ?thesis by (simp add: h1_def)
      next
        case xa: True
        from v obtain s2 where s2: "h' a = Some (n'\<lparr>n_corrupted := True, n_body := Content s2\<rparr>)"
            "length s2 = length s1"
          unfolding corrupted_version_def xa by (auto simp: h1_def n'_def)
        have "n'\<lparr>n_corrupted := True, n_body := Content s2\<rparr>
            = n\<lparr>n_corrupted := True, n_body := Content s2\<rparr>" by (simp add: n'_def)
        with s2 ls1 n show ?thesis unfolding corrupted_version_def xa by auto
      qed
    qed
  qed
  have c6: "distinct fileNodes \<longrightarrow> (\<forall>x\<in>set (a # chosen). corrupted_once rnd (h x) (h' x))"
  proof (intro impI ballI)
    fix x assume d: "distinct fileNodes" and x: "x \<in> set (a # chosen)"
    from d have one: "\<forall>y. count_list fileNodes y \<le> 1" by (rule iffD1[OF distinct_count_list])
    have "\<forall>y. count_list rest y \<le> 1"
    proof
      fix y from one have "count_list fileNodes y \<le> 1" by blast
      with cnt[of y] show "count_list rest y \<le> 1" by simp
    qed
    then have dr: "distinct rest" by (rule iffD2[OF distinct_count_list])
    from one have "count_list fileNodes a \<le> 1" by blast
    with cnt[of a] have "count_list rest a = 0" by simp
    moreover from r(3) have "count_list chosen a \<le> count_list rest a" by blast
    ultimately have "count_list chosen a = 0" by simp
    then have fresh: "a \<notin> set chosen" by (simp add: count_list_0_iff)
    show "corrupted_once rnd (h x) (h' x)"
    proof (cases "x = a")
      case True
      from fresh r(4) have "h' a = h1 a" by blast
      then have "h' a = Some (n\<lparr>n_corrupted := True,
          n_body := Content (apply_writes (writes_of rnd (k + 1) s) s)\<rparr>)"
        by (simp add: h1_def n'_def s1_def)
      with n show ?thesis unfolding corrupted_once_def True by blast
    next
      case False
      with x have "x \<in> set chosen" by simp
      with r(6) dr have "corrupted_once rnd (h1 x) (h' x)" by blast
      with False show ?thesis by (simp add: h1_def)
    qed
  qed
  from c1 c2 c3 c4 c5 c6 show ?case by blast
qed

subsection \<open>The example states\<close>

lemma alloc_ok_st_tree: "alloc_ok st_tree"
  by (auto simp: alloc_ok_def st_tree_def)

lemma stringify_st_tree: "stringify (heap st_tree) (fileSystem st_tree) \<noteq> None"
  by code_simp

lemma st_clip_facts:
  "clipboard st_clip = Some \<lparr>cb_action = Copy, cb_node = 3, cb_sourcePath = ''/home''\<rparr>"
  "nodeByPath st_clip ''/'' = Some (0, (demo_root [1])\<lparr>n_size := 2\<rparr>)"
  "n_body ((demo_root [1])\<lparr>n_size := 2\<rparr>) = Children [1]"
  "checkPermission st_clip ((demo_root [1])\<lparr>n_size := 2\<rparr>) ''write''"
  "alloc_ok st_clip" "nextAddr st_clip = 5"
  by (auto simp: st_clip_def st_tree_def st_empty_def nodeByPath_def getNodeByPath_def
      demo_root_def checkPermission_def folder_perms_def alloc_ok_def)

lemma st_clip_trees:
  "stringify (heap st_clip) 3 \<noteq> None" "stringify (heap st_clip) 0 \<noteq> None"
  by code_simp+

lemma st_x_facts:
  "clipboard st_x = Some \<lparr>cb_action = Copy, cb_node = 2, cb_sourcePath = ''/x.txt''\<rparr>"
  "nodeByPath st_x ''/'' = Some (0, (demo_root [1])\<lparr>n_size := 2\<rparr>)"
  "n_body ((demo_root [1])\<lparr>n_size := 2\<rparr>) = Children [1]"
  "checkPermission st_x ((demo_root [1])\<lparr>n_size := 2\<rparr>) ''write''"
  "alloc_ok st_x" "nextAddr st_x = 3"
  by (auto simp: st_x_def st_empty_def nodeByPath_def getNodeByPath_def
      demo_root_def checkPermission_def folder_perms_def alloc_ok_def)

lemma st_x_trees:
  "stringify (heap st_x) 2 \<noteq> None" "stringify (heap st_x) 0 \<noteq> None"
  "map_option (\<lambda>j. case j of JNode f b \<Rightarrow> n_name f) (stringify (heap st_x) 2) = Some ''x.txt''"
  "child_names (heap st_x) 0 = [''x.txt'']"
  by code_simp+

lemma st_ten_facts:
  "getAllNodes (heap st_ten) (fileSystem st_ten) = Some [0, 1]"
  "filter (uncorrupted_file (heap st_ten)) [0, 1] = [1]"
  "map_option n_size (heap st_ten 1) = Some 10"
  "map_option n_permissions (heap st_ten 1) = Some file_perms"
  "map_option n_body (heap st_ten 1) = Some (Content ''0123456789'')"
  by code_simp+

text \<open>At the draw \<open>0.33333333333333326\<close> the level is the double \<open>0.3\<close>, and a content of
  ten characters gets three writes; in exact arithmetic the level is below \<open>0.3\<close>.\<close>

lemma writes_count_example:
  "writes_count (6004799503160660 / 2 ^ 54) 10 = 3"
  "nat \<lfloor>10 * (2 / 10 + (6004799503160660 / 2 ^ 54) * (3 / 10) :: rat)\<rfloor> = 2"
  by code_simp+

subsection \<open>The copy branch of paste\<close>

text \<open>Let the clipboard hold a copy (a finite tree) of a node named \<open>base\<close> and let the
  destination be a folder that grants write and whose tree is finite. Then \<open>pasteItem\<close>
  succeeds and the inserted node, the last child of the destination, bears a name that no
  child of the destination had. If no child was named \<open>base\<close> the name is \<open>base\<close>;
  otherwise it is \<open>base\<close> with a counter \<open>k \<ge> 1\<close> in parentheses before the extension,
  \<open>k\<close> being the least counter whose name is free. A copy of \<open>x.txt\<close> pasted into a folder
  that holds \<open>x.txt\<close> and no \<open>x (1).txt\<close> is named \<open>x (1).txt\<close>.\<close>

lemma pasteCopy_name_is_unique:
  assumes clip: "clipboard st = Some cb" "cb_action cb = Copy"
      "stringify (heap st) (cb_node cb) = Some (JNode f b)"
    and dest: "nodeByPath st dest = Some (d, dn)" "n_body dn = Children cs"
      "checkPermission st dn ''write''"
    and tree: "stringify (heap st) d = Some jd" and alloc: "alloc_ok st"
  shows "\<exists>st' root dn'.
      pasteItem st newId now dest = Some (Done, st') \<and>
      heap st' d = Some dn' \<and> n_body dn' = Children (cs @ [nextAddr st]) \<and>
      heap st' (nextAddr st) = Some root \<and>
      n_name root = generateUniqueName (heap st) d (n_name f) \<and>
      n_name root \<notin> set (child_names (heap st) d) \<and>
      (if n_name f \<in> set (child_names (heap st) d)
       then \<exists>k\<ge>1. n_name root = candidate (n_name f) k \<and>
              (\<forall>i. 1 \<le> i \<and> i < k \<longrightarrow> candidate (n_name f) i \<in> set (child_names (heap st) d))
       else n_name root = n_name f) \<and>
      (n_name f = ''x.txt'' \<and> ''x.txt'' \<in> set (child_names (heap st) d) \<and>
       ''x (1).txt'' \<notin> set (child_names (heap st) d) \<longrightarrow> n_name root = ''x (1).txt'')"
proof -
  note d = nodeByPath_Some[OF dest(1)]
  define names where "names = child_names (heap st) d"
  define base where "base = n_name f"
  define unique where "unique = generateUniqueName (heap st) d base"
  from pasteCopy_succeeds[OF clip(3) d dest(2) tree alloc, of newId now]
  obtain h5 n1 root dn' where r:
      "pasteCopy st cb d newId now = Some (Done, st\<lparr>heap := h5, nextAddr := n1, clipboard := None\<rparr>)"
      "h5 d = Some dn'" "n_body dn' = Children (cs @ [nextAddr st])"
      "h5 (nextAddr st) = Some root" "n_name root = generateUniqueName (heap st) d (n_name f)"
    by (elim exE conjE) (rule that; assumption)
  have r5: "n_name root = unique" using r(5) by (simp add: unique_def base_def)
  have u: "unique = uniqueLoop names base base 1"
    by (simp add: unique_def generateUniqueName_def names_def)
  have fresh: "unique \<notin> set names" unfolding u by (rule uniqueLoop_fresh)
  have shape: "if base \<in> set names
       then \<exists>k\<ge>1. unique = candidate base k \<and>
              (\<forall>i. 1 \<le> i \<and> i < k \<longrightarrow> candidate base i \<in> set names)
       else unique = base"
  proof (cases "base \<in> set names")
    case True
    from uniqueLoop_char[OF True, of 1 base] show ?thesis using True unfolding u by auto
  next
    case False
    then show ?thesis unfolding u by (simp add: uniqueLoop_free)
  qed
  have x: "unique = ''x (1).txt''"
    if "base = ''x.txt''" "''x.txt'' \<in> set names" "''x (1).txt'' \<notin> set names"
  proof -
    from shape that obtain k where k: "k \<ge> 1" "unique = candidate ''x.txt'' k"
      "\<forall>i. 1 \<le> i \<and> i < k \<longrightarrow> candidate ''x.txt'' i \<in> set names" by auto
    have "k = 1"
    proof (rule ccontr)
      assume "k \<noteq> 1"
      with k(1) have "1 \<le> (1::nat) \<and> 1 < k" by simp
      with k(3) have "candidate ''x.txt'' 1 \<in> set names" by blast
      with that(3) show False unfolding candidate_x_txt by blast
    qed
    with k(2) show ?thesis by (simp only: candidate_x_txt)
  qed
  define st' where "st' = st\<lparr>heap := h5, nextAddr := n1, clipboard := None\<rparr>"
  have hs: "heap st' = h5" by (simp add: st'_def)
  have run: "pasteItem st newId now dest = Some (Done, st')"
    using pasteItem_copy[OF clip(1,2) dest] r(1) by (simp add: st'_def)
  show ?thesis unfolding names_def[symmetric] base_def[symmetric] unique_def[symmetric]
  proof (intro exI conjI)
    show "pasteItem st newId now dest = Some (Done, st')" by (fact run)
    show "heap st' d = Some dn'" unfolding hs by (fact r(2))
    show "n_body dn' = Children (cs @ [nextAddr st])" by (fact r(3))
    show "heap st' (nextAddr st) = Some root" unfolding hs by (fact r(4))
    show "n_name root = unique" by (fact r5)
    show "n_name root \<notin> set names" unfolding r5 by (fact fresh)
    show "if base \<in> set names
       then \<exists>k\<ge>1. n_name root = candidate base k \<and>
              (\<forall>i. 1 \<le> i \<and> i < k \<longrightarrow> candidate base i \<in> set names)
       else n_name root = base" unfolding r5 by (fact shape)
    show "base = ''x.txt'' \<and> ''x.txt'' \<in> set names \<and> ''x (1).txt'' \<notin> set names \<longrightarrow>
        n_name root = ''x (1).txt''" unfolding r5 using x by blast
  qed
qed

lemma pasteCopy_name_example:
  "\<exists>st' root. pasteItem st_x ''node_3'' 3 ''/'' = Some (Done, st') \<and>
     heap st' 3 = Some root \<and> n_name root = ''x (1).txt''"
proof -
  from st_x_trees(1,2) obtain j jd where t: "stringify (heap st_x) 2 = Some j"
    "stringify (heap st_x) 0 = Some jd" by auto
  obtain f b where j: "j = JNode f b" by (cases j)
  have c: "stringify (heap st_x) (cb_node \<lparr>cb_action = Copy, cb_node = 2, cb_sourcePath = ''/x.txt''\<rparr>)
      = Some (JNode f b)" using t(1) j by simp
  have a: "cb_action \<lparr>cb_action = Copy, cb_node = 2, cb_sourcePath = ''/x.txt''\<rparr> = Copy" by simp
  have n: "n_name f = ''x.txt''" using st_x_trees(3) t(1) j by simp
  from pasteCopy_name_is_unique[OF st_x_facts(1) a c st_x_facts(2,3,4) t(2) st_x_facts(5),
      of "''node_3''" 3]
  obtain st' root where "pasteItem st_x ''node_3'' 3 ''/'' = Some (Done, st')"
    "heap st' (nextAddr st_x) = Some root"
    "n_name f = ''x.txt'' \<and> ''x.txt'' \<in> set (child_names (heap st_x) 0) \<and>
       ''x (1).txt'' \<notin> set (child_names (heap st_x) 0) \<longrightarrow> n_name root = ''x (1).txt''"
    by (elim exE conjE) (rule that; assumption)
  then show ?thesis unfolding st_x_facts(6) st_x_trees(4) using n by auto
qed

subsection \<open>Unbounded recursion\<close>

text \<open>The recursion of \<open>updateFolderSize\<close> is unbounded on two folders that hold each
  other.\<close>

lemma sumChildren_two_cycle_aux:
  assumes a: "h a = Some na" "n_body na = Children [b]"
    and b: "h b = Some nb" "n_body nb = Children [a]"
  shows "sumChildren h' cs = Some y \<Longrightarrow> \<not> (h' = h \<and> (cs = [a] \<or> cs = [b]))"
proof (rule sumChildren.raw_induct
    [where P = "\<lambda>h' cs y. \<not> (h' = h \<and> (cs = [a] \<or> cs = [b]))"])
  fix f :: "heap \<Rightarrow> addr list \<Rightarrow> (nat \<times> heap) option" and h' cs y
  assume IH: "\<And>h' cs y. f h' cs = Some y \<Longrightarrow> \<not> (h' = h \<and> (cs = [a] \<or> cs = [b]))"
  assume body: "(case cs of
        [] \<Rightarrow> Some (0, h')
      | child # rest \<Rightarrow>
          (case h' child of
             None \<Rightarrow> None
           | Some n \<Rightarrow>
               (case n_body n of
                  Children gs \<Rightarrow>
                    Option.bind (f h' gs) (\<lambda>(totalSize, h1).
                      Option.bind (f (modify child (\<lambda>n. n\<lparr>n_size := totalSize\<rparr>) h1) rest)
                        (\<lambda>(t, h'). Some (totalSize + t, h')))
                | Content s \<Rightarrow>
                    Option.bind (f h' rest) (\<lambda>(t, h'). Some (n_size n + t, h'))))) = Some y"
  show "\<not> (h' = h \<and> (cs = [a] \<or> cs = [b]))"
  proof
    assume c: "h' = h \<and> (cs = [a] \<or> cs = [b])"
    then have h: "h' = h" by simp
    from c consider "cs = [a]" | "cs = [b]" by blast
    then show False
    proof cases
      case 1
      with body a h obtain z where "f h [b] = Some z" by (auto split: Option.bind_splits)
      from IH[OF this] show False by simp
    next
      case 2
      with body b h obtain z where "f h [a] = Some z" by (auto split: Option.bind_splits)
      from IH[OF this] show False by simp
    qed
  qed
qed (assumption)

lemma updateFolderSize_two_cycle:
  assumes "h a = Some na" "n_body na = Children [b]" "h b = Some nb" "n_body nb = Children [a]"
  shows "updateFolderSize h a = None"
proof -
  have "sumChildren h [b] = None"
  proof (cases "sumChildren h [b]")
    case (Some y)
    from sumChildren_two_cycle_aux[OF assms this] show ?thesis by simp
  qed simp
  with assms(1,2) show ?thesis by (simp add: updateFolderSize_def)
qed

text \<open>A folder moved into its own child: the folder is taken out of the root and pushed
  to the child before \<open>updateFolderSize\<close> fills the call stack.\<close>

lemma st_nested_facts:
  "clipboard st_nested = Some \<lparr>cb_action = Move, cb_node = 1, cb_sourcePath = ''/a''\<rparr>"
  "nodeByPath st_nested ''/a/b''
     = Some (2, createNode ''node_2'' 2 ''b'' Folder ''admin'' folder_perms)"
  "is_folder (createNode ''node_2'' 2 ''b'' Folder ''admin'' folder_perms)"
  "checkPermission st_nested (createNode ''node_2'' 2 ''b'' Folder ''admin'' folder_perms) ''write''"
  "(case detachSource st_nested \<lparr>cb_action = Move, cb_node = 1, cb_sourcePath = ''/a''\<rparr> 3 of
      (e, h1) \<Rightarrow> e = None \<and> map_option n_body (h1 0) = Some (Children []) \<and>
        map_option n_body (h1 1) = Some (Children [2]) \<and>
        map_option n_body (h1 2) = Some (Children []))"
  by code_simp+

lemma pasteItem_into_own_descendant:
  "\<exists>st'. pasteItem st_nested ''node_3'' 3 ''/a/b'' = Some (Thrown RangeError, st') \<and>
     map_option n_body (heap st' 0) = Some (Children []) \<and>
     map_option n_body (heap st' 2) = Some (Children [1])"
proof -
  define cb where "cb = \<lparr>cb_action = Move, cb_node = 1, cb_sourcePath = ''/a''\<rparr>"
  obtain e h1 where d: "detachSource st_nested cb 3 = (e, h1)" by (cases "detachSource st_nested cb 3")
  with st_nested_facts(5) have e: "e = None" and h1: "map_option n_body (h1 0) = Some (Children [])"
      "map_option n_body (h1 1) = Some (Children [2])" "map_option n_body (h1 2) = Some (Children [])"
    by (simp_all add: cb_def)
  define h2 where "h2 = modify 1 (\<lambda>n. n\<lparr>n_name := generateUniqueName h1 2 (n_name n)\<rparr>) h1"
  define h3 where "h3 = modify 2 (push_child 1 3) h2"
  from h1 obtain n0 n1 n2 where n: "h1 0 = Some n0" "n_body n0 = Children []"
      "h1 1 = Some n1" "n_body n1 = Children [2]" "h1 2 = Some n2" "n_body n2 = Children []"
    by auto
  have a1: "h3 1 = Some (n1\<lparr>n_name := generateUniqueName h1 2 (n_name n1)\<rparr>)"
    using n by (simp add: h3_def h2_def modify_def)
  have a2: "h3 2 = Some (push_child 1 3 n2)" using n by (simp add: h3_def h2_def modify_def)
  have a0: "h3 0 = Some n0" using n by (simp add: h3_def h2_def modify_def)
  have b1: "n_body (n1\<lparr>n_name := generateUniqueName h1 2 (n_name n1)\<rparr>) = Children [2]"
    using n(4) by simp
  have b2: "n_body (push_child 1 3 n2) = Children [1]" using n(6) by (simp add: push_child_def)
  have none: "updateFolderSize h3 2 = None"
    using a2 b2 a1 b1 by (rule updateFolderSize_two_cycle)
  have "pasteItem st_nested ''node_3'' 3 ''/a/b'' = pasteMove st_nested cb 2 ''/a/b'' 3"
    using st_nested_facts(1,2,3,4) by (simp add: pasteItem_def cb_def)
  also have "\<dots> = Some (Thrown RangeError, st_nested\<lparr>heap := h3\<rparr>)"
    using d e none by (simp add: pasteMove_def Let_def h3_def h2_def cb_def)
  finally have "pasteItem st_nested ''node_3'' 3 ''/a/b'' = Some (Thrown RangeError, st_nested\<lparr>heap := h3\<rparr>)" .
  moreover have "map_option n_body (heap (st_nested\<lparr>heap := h3\<rparr>) 0) = Some (Children [])"
    using a0 n(2) by simp
  moreover have "map_option n_body (heap (st_nested\<lparr>heap := h3\<rparr>) 2) = Some (Children [1])"
    using a2 b2 by simp
  ultimately show ?thesis by blast
qed

section \<open>Theorems\<close>

text \<open>C3: \<open>checkPermission\<close> is the reference definition: with the admin override it
  answers true for every node and operation; otherwise it takes the owner triple when the
  actor is the owner, the group triple when the actor is one of the privileged roles, the
  others triple otherwise, and answers whether that triple holds the bit of the requested
  operation.\<close>

theorem checkPermission_refines_spec:
  "checkPermission st node operation =
     checkPermission_spec node operation (currentUser st) (adminMode st)"
  by (simp add: checkPermission_def checkPermission_spec_def selected_triple_def
      privileged_role_def operation_bit_def Let_def)

text \<open>C10: change-directory fails closed. For every argument, \<open>terminalCD\<close> leaves the
  state, and so the working directory, as it was when the argument is missing or the resolved
  target does not exist, is not a folder or does not grant execute; the working directory
  becomes the resolved target exactly when the target exists, is a folder and grants
  execute.\<close>

theorem terminalCD_fails_closed:
  "snd (terminalCD st arg) =
     (case arg of
        None \<Rightarrow> st
      | Some path \<Rightarrow>
          if path \<noteq> [] \<and> cd_target_ok st path then st\<lparr>currentPath := cdPath st path\<rparr>
          else st)"
  by (simp add: terminalCD_def cd_target_ok_def Let_def split: option.split prod.split)

text \<open>C1 (failing input): after \<open>mkdir home\<close> and \<open>cd home\<close>, creating the file
  \<open>a.txt\<close> with content \<open>hi\<close> in \<open>/home\<close> runs \<open>updateFolderSize\<close> on \<open>/home\<close>
  only. The file and \<open>/home\<close> have size 2 and the root keeps size 0: the root's size is no
  longer the sum of the sizes of its children.\<close>

theorem createNewFile_leaves_root_size_stale:
  "currentPath st_home = ''/home'' \<and>
   folder_size_ok (heap st_home) 0 \<and> folder_size_ok (heap st_home) 1 \<and>
   (case createNewFile st_home ''node_2'' 2 ''a.txt'' ''hi'' of
      Some (Done, st') \<Rightarrow>
        getNodeByPath st' ''/home/a.txt'' = Some 2 \<and>
        map_option n_size (heap st' 2) = Some 2 \<and>
        map_option n_size (heap st' 1) = Some 2 \<and>
        map_option n_size (heap st' 0) = Some 0 \<and>
        folder_size_ok (heap st') 1 \<and> \<not> folder_size_ok (heap st') 0
    | _ \<Rightarrow> False)"
  by code_simp

text \<open>C4 (failing input): after \<open>mkdir tmp\<close>, \<open>cd tmp\<close> and \<open>rm /tmp\<close> the current
  path names no node, and \<open>mkdir x\<close> ends in an uncaught \<open>TypeError\<close> instead of a
  response.\<close>

theorem terminalMKDIR_throws_without_directory:
  "currentPath st_gone = ''/tmp'' \<and>
   getNodeByPath st_gone (currentPath st_gone) = None \<and>
   map_option fst (terminalMKDIR st_gone ''node_2'' 3 (Some ''x'')) = Some (Thrown TypeError)"
  by code_simp

text \<open>C5 (failing input): after \<open>mkdir /\<close> the explorer shows a folder whose path is
  \<open>//\<close>; that path resolves to the root, and renaming the selected item to \<open>x\<close> renames
  the root folder.\<close>

theorem renameSelectedItem_renames_root:
  "getNodeByPath st_slash ''//'' = Some (fileSystem st_slash) \<and>
   map_option n_id (heap st_slash (fileSystem st_slash)) = Some ''root'' \<and>
   map_option n_name (heap st_slash (fileSystem st_slash)) = Some ''/'' \<and>
   (case renameSelectedItem st_slash 2 ''x'' of
      (Done, st') \<Rightarrow> map_option n_name (heap st' (fileSystem st')) = Some ''x''
    | _ \<Rightarrow> False)"
  by code_simp

text \<open>C6: a snapshot followed at once by a restore gives back the tree. When the tree under
  the root is a finite tree with JSON \<open>t\<close>, \<open>createSnapshot\<close> succeeds, \<open>restoreSnapshot\<close>
  succeeds (or is cancelled in its dialog), and the tree under the root has JSON \<open>t\<close>
  again: it is deep-equal to the tree before the snapshot.\<close>

theorem snapshot_restore_roundtrip:
  assumes "stringify (heap st) (fileSystem st) = Some t" and "alloc_ok st"
  shows "\<exists>st1 st2. createSnapshot st now = (Done, st1) \<and>
           restoreSnapshot st1 confirmed = (if confirmed then Done else Refused Cancelled, st2) \<and>
           stringify (heap st2) (fileSystem st2) = Some t"
proof -
  obtain d h1 n1 where p1: "parse t (heap st, nextAddr st) = (d, h1, n1)"
    by (cases "parse t (heap st, nextAddr st)") auto
  from assms(2) have a: "\<forall>x\<ge>nextAddr st. heap st x = None" by (simp add: alloc_ok_def)
  note c1 = clone_facts[OF a assms(1) p1]
  define snaps where "snaps = \<lparr>snap_id = now, snap_timestamp = now, snap_data = d\<rparr> # snapshots st"
  define kept where "kept = (if length snaps > 5 then butlast snaps else snaps)"
  define st1 where "st1 = st\<lparr>snapshots := kept, heap := h1, nextAddr := n1\<rparr>"
  have cs: "createSnapshot st now = (Done, st1)"
    using assms(1) p1 by (simp add: createSnapshot_def st1_def kept_def snaps_def Let_def)
  have "\<exists>older. kept = \<lparr>snap_id = now, snap_timestamp = now, snap_data = d\<rparr> # older"
    by (cases "snapshots st") (simp_all add: kept_def snaps_def)
  then obtain older where "kept = \<lparr>snap_id = now, snap_timestamp = now, snap_data = d\<rparr> # older" ..
  then have hd: "snapshots st1 = \<lparr>snap_id = now, snap_timestamp = now, snap_data = d\<rparr> # older"
    by (simp add: st1_def)
  have [simp]: "heap st1 = h1" "nextAddr st1 = n1" "fileSystem st1 = fileSystem st"
    by (simp_all add: st1_def)
  show ?thesis
  proof (cases confirmed)
    case False
    have "restoreSnapshot st1 confirmed = (Refused Cancelled, st1)"
      using False hd by (simp add: restoreSnapshot_def)
    moreover have "stringify (heap st1) (fileSystem st1) = Some t" using c1(2) by simp
    ultimately show ?thesis using cs False by auto
  next
    case True
    obtain r h2 n2 where p2: "parse t (h1, n1) = (r, h2, n2)" by (cases "parse t (h1, n1)") auto
    note c2 = clone_facts[OF c1(3) c1(1) p2]
    have "restoreSnapshot st1 confirmed = (Done, st1\<lparr>fileSystem := r, heap := h2, nextAddr := n2\<rparr>)"
      using True c1(1) p2 hd by (simp add: restoreSnapshot_def)
    moreover have "stringify (heap (st1\<lparr>fileSystem := r, heap := h2, nextAddr := n2\<rparr>))
        (fileSystem (st1\<lparr>fileSystem := r, heap := h2, nextAddr := n2\<rparr>)) = Some t"
      using c2(1) by simp
    ultimately show ?thesis using cs True by auto
  qed
qed


theorem snapshot_restore_roundtrip_witness:
  "\<exists>t st1 st2. stringify (heap st_tree) (fileSystem st_tree) = Some t \<and>
     createSnapshot st_tree 5 = (Done, st1) \<and> restoreSnapshot st1 True = (Done, st2) \<and>
     stringify (heap st2) (fileSystem st2) = Some t"
proof -
  from stringify_st_tree obtain t where t: "stringify (heap st_tree) (fileSystem st_tree) = Some t"
    by auto
  from snapshot_restore_roundtrip[OF t alloc_ok_st_tree, of 5 True] t show ?thesis by auto
qed

text \<open>C2 (counterexample): \<open>touch a.txt\<close> on an empty root folder creates a file with
  empty content whose stored size is 100, not the byte length 0 of its content.\<close>

theorem touch_size_counterexample:
  "(case terminalTOUCH st_empty ''node_1'' 1 (Some ''a.txt'') of
      Some (Said [], st') \<Rightarrow>
        (case heap st' 1 of
           Some file \<Rightarrow>
             n_name file = ''a.txt'' \<and> n_body file = Content [] \<and> n_size file = 100 \<and>
             n_size file \<noteq> calculateSize []
         | None \<Rightarrow> False)
    | _ \<Rightarrow> False)"
  by code_simp

text \<open>C2 (amended): in a current directory that is a folder of a finite tree and grants
  write, for a name that no child has, \<open>touch\<close> creates a file with empty content and
  stored size 100 (the default of \<open>createNode\<close>); \<open>createNewFile\<close> creates a file
  whose stored size is the byte length of its content when the content is not empty, and 100
  when it is empty.\<close>

theorem created_file_sizes:
  assumes cwd: "nodeByPath st (currentPath st) = Some (cur, dir)" "n_body dir = Children cs"
    and perm: "checkPermission st dir ''write''"
    and name: "name \<noteq> []" "trim name = name" "\<not> has_child_named (heap st) cs name"
    and tree: "stringify (heap st) cur = Some j" and alloc: "alloc_ok st"
  shows "(\<exists>st' file d. terminalTOUCH st newId now (Some name) = Some (Said [], st') \<and>
            heap st' (nextAddr st) = Some file \<and> n_name file = name \<and>
            n_body file = Content [] \<and> n_size file = 100 \<and>
            heap st' cur = Some d \<and> n_body d = Children (cs @ [nextAddr st])) \<and>
         (\<exists>st' file d. createNewFile st newId now name content = Some (Done, st') \<and>
            heap st' (nextAddr st) = Some file \<and> n_name file = name \<and>
            n_body file = Content content \<and>
            n_size file = (if content = [] then 100 else calculateSize content) \<and>
            heap st' cur = Some d \<and> n_body d = Children (cs @ [nextAddr st]))"
proof -
  note dir = nodeByPath_Some[OF cwd(1)]
  have ne: "cur \<noteq> nextAddr st" using dir alloc by (auto simp: alloc_ok_def)
  have *: "\<exists>st' d. add_to_dir st cur new now result = Some (result, st') \<and>
      heap st' (nextAddr st) = Some new \<and> heap st' cur = Some d \<and>
      n_body d = Children (cs @ [nextAddr st])"
    if "n_body new = Content s" for new s result
  proof -
    from add_to_dir_succeeds[OF dir cwd(2) tree alloc, of new s now result] that
    obtain h3 where h3: "add_to_dir st cur new now result =
           Some (result, st\<lparr>heap := h3, nextAddr := Suc (nextAddr st)\<rparr>)"
      "size_variant ((heap st)(nextAddr st \<mapsto> new, cur \<mapsto> push_child (nextAddr st) now dir)) h3"
      by auto
    have "h3 (nextAddr st) = Some new"
      by (rule size_variant_file[OF h3(2)]) (use ne that in \<open>auto simp: is_folder_def\<close>)
    moreover from size_variant_Some[OF h3(2), of cur "push_child (nextAddr st) now dir"]
    obtain d where "h3 cur = Some d" "n_body d = Children (cs @ [nextAddr st])"
      using cwd(2) by (auto simp: push_child_def)
    ultimately show ?thesis using h3(1) by auto
  qed
  let ?touched = "createNode newId now name File (currentUser st) file_perms"
  have "find (\<lambda>c. case heap st c of None \<Rightarrow> False | Some cn \<Rightarrow> n_name cn = name) cs = None"
    using name(3) by (simp add: find_None_list_ex has_child_named_def)
  then have "terminalTOUCH st newId now (Some name) = add_to_dir st cur ?touched now (Said [])"
    using cwd perm name by (simp add: terminalTOUCH_def)
  moreover have "n_body ?touched = Content []" "n_name ?touched = name" "n_size ?touched = 100"
    by (simp_all add: createNode_def)
  ultimately have touch: "\<exists>st' file d. terminalTOUCH st newId now (Some name) = Some (Said [], st') \<and>
            heap st' (nextAddr st) = Some file \<and> n_name file = name \<and>
            n_body file = Content [] \<and> n_size file = 100 \<and>
            heap st' cur = Some d \<and> n_body d = Children (cs @ [nextAddr st])"
    using *[of ?touched "[]" "Said []"] by auto
  let ?file = "if content \<noteq> [] then ?touched\<lparr>n_size := calculateSize content, n_body := Content content\<rparr>
      else ?touched"
  have "createNewFile st newId now name content = add_to_dir st cur ?file now Done"
    using cwd perm name by (simp add: createNewFile_def Let_def)
  moreover have "n_body ?file = Content content" "n_name ?file = name"
    "n_size ?file = (if content = [] then 100 else calculateSize content)"
    by (simp_all add: createNode_def)
  ultimately have "\<exists>st' file d. createNewFile st newId now name content = Some (Done, st') \<and>
            heap st' (nextAddr st) = Some file \<and> n_name file = name \<and>
            n_body file = Content content \<and>
            n_size file = (if content = [] then 100 else calculateSize content) \<and>
            heap st' cur = Some d \<and> n_body d = Children (cs @ [nextAddr st])"
    using *[of ?file content Done] by auto
  with touch show ?thesis by blast
qed

theorem created_file_sizes_witness:
  "(\<exists>st' file d. terminalTOUCH st_empty ''node_1'' 1 (Some ''a.txt'') = Some (Said [], st') \<and>
      heap st' 1 = Some file \<and> n_name file = ''a.txt'' \<and> n_body file = Content [] \<and>
      n_size file = 100 \<and> heap st' 0 = Some d \<and> n_body d = Children [1]) \<and>
   (\<exists>st' file d. createNewFile st_empty ''node_1'' 1 ''a.txt'' ''hi'' = Some (Done, st') \<and>
      heap st' 1 = Some file \<and> n_name file = ''a.txt'' \<and> n_body file = Content ''hi'' \<and>
      n_size file = 2 \<and> heap st' 0 = Some d \<and> n_body d = Children [1])"
proof -
  have 1: "nodeByPath st_empty (currentPath st_empty) = Some (0, demo_root [])"
    by (simp add: nodeByPath_def getNodeByPath_def st_empty_def)
  have 2: "n_body (demo_root []) = Children []" by (simp add: demo_root_def)
  have 3: "checkPermission st_empty (demo_root []) ''write''" by code_simp
  have 4: "''a.txt'' \<noteq> []" "trim ''a.txt'' = ''a.txt''"
    "\<not> has_child_named (heap st_empty) [] ''a.txt''" by code_simp+
  have "stringify (heap st_empty) 0 \<noteq> None" by code_simp
  then obtain j where 5: "stringify (heap st_empty) 0 = Some j" by auto
  have 6: "alloc_ok st_empty" by (auto simp: alloc_ok_def st_empty_def)
  have 7: "nextAddr st_empty = 1" by (simp add: st_empty_def)
  have 8: "calculateSize ''hi'' = 2" by code_simp
  from created_file_sizes[OF 1 2 3 4 5 6, of "''node_1''" 1 "''hi''"] show ?thesis
    by (simp add: 7 8)
qed

text \<open>C7, as the source has it: pasting a copy into the copied folder itself changes
  that folder. After \<open>copyItem('/home')\<close> and \<open>pasteItem('/home')\<close> the folder
  \<open>/home\<close> is the same object as before, and its tree is another one: it holds the
  pasted copy.\<close>

theorem paste_into_source_counterexample:
  "(case copyItem st_tree ''/home'' of
      (Done, st1) \<Rightarrow>
        (case pasteItem st1 ''node_5'' 5 ''/home'' of
           Some (Done, st2) \<Rightarrow>
             getNodeByPath st1 ''/home'' = Some 1 \<and> getNodeByPath st2 ''/home'' = Some 1 \<and>
             stringify (heap st2) 1 \<noteq> stringify (heap st1) 1
         | _ \<Rightarrow> False)
    | _ \<Rightarrow> False)"
  by code_simp

text \<open>C7, amended: let the clipboard hold a copy (a finite tree) and let the destination
  be a folder that grants write and whose tree is finite. Then \<open>pasteItem\<close> succeeds, and

  \<^item> every object that existed before, other than the destination folder, is what it was,
    up to the recomputed size of a folder; outside the tree of the destination nothing
    changes at all. So the source subtree is unchanged unless the destination lies in it,
    up to the sizes of folders recomputed beneath the destination;
  \<^item> the destination folder gains one child, the last one, at a fresh address;
  \<^item> the tree of the inserted node lives at fresh addresses only, and is the tree of the
    clipboard with the new id and the disambiguated name, up to recomputed folder sizes;
  \<^item> a later write to an object of the inserted tree changes no object that existed
    before the paste, and a later write to an object that existed before the paste does
    not change the inserted tree.\<close>

theorem paste_copy_is_independent:
  assumes clip: "clipboard st = Some cb" "cb_action cb = Copy"
      "stringify (heap st) (cb_node cb) = Some (JNode f b)"
    and dest: "nodeByPath st dest = Some (d, dn)" "n_body dn = Children cs"
      "checkPermission st dn ''write''"
    and tree: "stringify (heap st) d = Some jd" and alloc: "alloc_ok st"
  shows "\<exists>st' zs xs j' dn'.
      pasteItem st newId now dest = Some (Done, st') \<and>
      (\<forall>x. x < nextAddr st \<and> x \<noteq> d \<longrightarrow> same_but_size (heap st x) (heap st' x)) \<and>
      getAllNodes (heap st') d = Some zs \<and>
      (\<forall>x. x < nextAddr st \<and> x \<notin> set zs \<longrightarrow> heap st' x = heap st x) \<and>
      heap st' d = Some dn' \<and> n_body dn' = Children (cs @ [nextAddr st]) \<and>
      getAllNodes (heap st') (nextAddr st) = Some xs \<and>
      set xs \<subseteq> {nextAddr st..<nextAddr st'} \<and>
      stringify (heap st') (nextAddr st) = Some j' \<and>
      forget_sizes j' = forget_sizes
        (JNode (f\<lparr>n_id := newId, n_name := generateUniqueName (heap st) d (n_name f)\<rparr>) b) \<and>
      (\<forall>a g x. a \<in> set xs \<and> x < nextAddr st \<longrightarrow> modify a g (heap st') x = heap st' x) \<and>
      (\<forall>a g. a < nextAddr st \<longrightarrow>
         stringify (modify a g (heap st')) (nextAddr st) = Some j')"
proof -
  note d = nodeByPath_Some[OF dest(1)]
  from pasteCopy_succeeds[OF clip(3) d dest(2) tree alloc, of newId now]
  obtain h5 n1 xs zs j' root dn' where r:
      "pasteCopy st cb d newId now = Some (Done, st\<lparr>heap := h5, nextAddr := n1, clipboard := None\<rparr>)"
      "nextAddr st < n1"
      "\<forall>x. x < nextAddr st \<and> x \<noteq> d \<longrightarrow> same_but_size (heap st x) (h5 x)"
      "getAllNodes h5 d = Some zs"
      "\<forall>x. x < nextAddr st \<and> x \<notin> set zs \<longrightarrow> h5 x = heap st x"
      "h5 d = Some dn'" "n_body dn' = Children (cs @ [nextAddr st])"
      "getAllNodes h5 (nextAddr st) = Some xs" "set xs \<subseteq> {nextAddr st..<n1}"
      "stringify h5 (nextAddr st) = Some j'"
      "forget_sizes j' = forget_sizes
        (JNode (f\<lparr>n_id := newId, n_name := generateUniqueName (heap st) d (n_name f)\<rparr>) b)"
    by (elim exE conjE) (rule that; assumption)
  define st' where "st' = st\<lparr>heap := h5, nextAddr := n1, clipboard := None\<rparr>"
  have hs: "heap st' = h5" "nextAddr st' = n1" by (simp_all add: st'_def)
  have run: "pasteItem st newId now dest = Some (Done, st')"
    using pasteItem_copy[OF clip(1,2) dest] r(1) by (simp add: st'_def)
  have i1: "\<forall>a g x. a \<in> set xs \<and> x < nextAddr st \<longrightarrow> modify a g h5 x = h5 x"
  proof (intro allI impI)
    fix a g x assume "a \<in> set xs \<and> x < nextAddr st"
    with r(9) have "x \<noteq> a" by auto
    then show "modify a g h5 x = h5 x" by (rule modify_other)
  qed
  have i2: "\<forall>a g. a < nextAddr st \<longrightarrow> stringify (modify a g h5) (nextAddr st) = Some j'"
  proof (intro allI impI)
    fix a g assume a: "a < nextAddr st"
    have "stringify (modify a g h5) (nextAddr st) = stringify h5 (nextAddr st)"
    proof (rule stringify_nodes_frame[OF r(8)])
      fix x assume "x \<in> set xs"
      with r(9) a have "x \<noteq> a" by auto
      then show "modify a g h5 x = h5 x" by (rule modify_other)
    qed
    with r(10) show "stringify (modify a g h5) (nextAddr st) = Some j'" by simp
  qed
  show ?thesis
  proof (intro exI conjI)
    show "pasteItem st newId now dest = Some (Done, st')" by (fact run)
    show "\<forall>x. x < nextAddr st \<and> x \<noteq> d \<longrightarrow> same_but_size (heap st x) (heap st' x)"
      unfolding hs by (fact r(3))
    show "getAllNodes (heap st') d = Some zs" unfolding hs by (fact r(4))
    show "\<forall>x. x < nextAddr st \<and> x \<notin> set zs \<longrightarrow> heap st' x = heap st x"
      unfolding hs by (fact r(5))
    show "heap st' d = Some dn'" unfolding hs by (fact r(6))
    show "n_body dn' = Children (cs @ [nextAddr st])" by (fact r(7))
    show "getAllNodes (heap st') (nextAddr st) = Some xs" unfolding hs by (fact r(8))
    show "set xs \<subseteq> {nextAddr st..<nextAddr st'}" unfolding hs by (fact r(9))
    show "stringify (heap st') (nextAddr st) = Some j'" unfolding hs by (fact r(10))
    show "forget_sizes j' = forget_sizes
        (JNode (f\<lparr>n_id := newId, n_name := generateUniqueName (heap st) d (n_name f)\<rparr>) b)"
      by (fact r(11))
    show "\<forall>a g x. a \<in> set xs \<and> x < nextAddr st \<longrightarrow> modify a g (heap st') x = heap st' x"
      unfolding hs by (fact i1)
    show "\<forall>a g. a < nextAddr st \<longrightarrow>
         stringify (modify a g (heap st')) (nextAddr st) = Some j'"
      unfolding hs by (fact i2)
  qed
qed

theorem paste_copy_is_independent_witness:
  "\<exists>st' xs j'. pasteItem st_clip ''node_5'' 5 ''/'' = Some (Done, st') \<and>
     getAllNodes (heap st') 5 = Some xs \<and> set xs \<subseteq> {5..<nextAddr st'} \<and>
     stringify (heap st') 5 = Some j'"
proof -
  from st_clip_trees obtain j jd where t: "stringify (heap st_clip) 3 = Some j"
    "stringify (heap st_clip) 0 = Some jd" by auto
  obtain f b where j: "j = JNode f b" by (cases j)
  have c: "stringify (heap st_clip) (cb_node \<lparr>cb_action = Copy, cb_node = 3, cb_sourcePath = ''/home''\<rparr>)
      = Some (JNode f b)" using t(1) j by simp
  have a: "cb_action \<lparr>cb_action = Copy, cb_node = 3, cb_sourcePath = ''/home''\<rparr> = Copy" by simp
  from paste_copy_is_independent[OF st_clip_facts(1) a c st_clip_facts(2,3,4) t(2) st_clip_facts(5),
      of "''node_5''" 5]
  obtain st' xs j' where "pasteItem st_clip ''node_5'' 5 ''/'' = Some (Done, st')"
    "getAllNodes (heap st') (nextAddr st_clip) = Some xs"
    "set xs \<subseteq> {nextAddr st_clip..<nextAddr st'}"
    "stringify (heap st') (nextAddr st_clip) = Some j'"
    by (elim exE conjE) (rule that; assumption)
  then show ?thesis unfolding st_clip_facts(6) by - (intro exI conjI; assumption)
qed

text \<open>C8 (failing input): the move branch of paste on a stale source path. On the root
  with the folder \<open>home\<close> and the file \<open>/home/a.txt\<close>: \<open>moveItem('/home/a.txt')\<close>, then
  \<open>home\<close> is selected and renamed to \<open>h2\<close>, then \<open>pasteItem('/h2')\<close>. The source path
  \<open>/home\<close> names no folder any more, so the file is not taken out of its folder; it is
  the child named \<open>a.txt\<close> that \<open>generateUniqueName\<close> finds in the destination, it is
  renamed to \<open>a (1).txt\<close> and pushed again: the destination lists the same object twice,
  and two children bear the name \<open>a (1).txt\<close>.\<close>

theorem pasteItem_move_duplicates_name:
  "(case moveItem st_tree ''/home/a.txt'' of
      (Done, st1) \<Rightarrow>
        (case renameSelectedItem (st1\<lparr>selectedItem := Some ''/home''\<rparr>) 3 ''h2'' of
           (Done, st2) \<Rightarrow>
             (case pasteItem st2 ''node_3'' 4 ''/h2'' of
                Some (Done, st3) \<Rightarrow>
                  getNodeByPath st3 ''/h2'' = Some 1 \<and>
                  map_option n_body (heap st3 1) = Some (Children [2, 2]) \<and>
                  child_names (heap st2) 1 = [''a.txt''] \<and>
                  child_names (heap st3) 1 = [''a (1).txt'', ''a (1).txt'']
              | _ \<Rightarrow> False)
         | _ \<Rightarrow> False)
    | _ \<Rightarrow> False)"
  by code_simp

text \<open>C9, as the source has it: the positions of the writes are drawn independently, so
  one position can be drawn again and fewer characters are replaced than writes are made.
  On the file \<open>d.txt\<close> of ten characters, with every draw of \<open>Math.random()\<close> being 0,
  the level is \<open>0.2\<close>, two writes are made, and both go to position 0: one character of
  ten is replaced.\<close>

theorem corrupt_counterexample:
  "(case corruptRandomItems (\<lambda>k. 0) st_ten of
      Some (Done, st') \<Rightarrow>
        (case heap st' 1 of
           Some n \<Rightarrow>
             n_corrupted n \<and> n_body n = Content (char_of (0::nat) # ''123456789'') \<and>
             differences ''0123456789'' (char_of (0::nat) # ''123456789'') = 1
         | None \<Rightarrow> False)
    | _ \<Rightarrow> False)"
  by code_simp

text \<open>C9, amended: let every draw be a double in \<open>[0, 1)\<close> and let the tree under the root
  be finite. When no uncorrupted file exists, \<open>corruptRandomItems\<close> reports that and leaves
  the state. Otherwise it succeeds and chooses \<open>min (\<lfloor>3 r\<rfloor> + 1) n\<close> entries of the list of
  the \<open>n\<close> uncorrupted files, between 1 and 3, no entry more often than the list holds it;
  objects that were not chosen are left as they were; a chosen file gets the flag and a
  content of the same length, and keeps its size, its permissions and every other field.

  When the tree lists no object twice, no file is chosen twice, and the new content of a
  chosen file with content \<open>s\<close> is \<open>s\<close> after the writes \<open>writes_of rnd k s\<close>, for the index
  \<open>k\<close> of the draw \<open>r\<close> of its level: \<open>Math.floor(length * (0.2 + r * 0.3))\<close> writes in
  double arithmetic, each of a character below 256 at a position inside the content, the
  positions drawn independently. So the content differs from \<open>s\<close> at no more positions
  than writes are made, and for a length below \<open>2^53\<close> the number of writes lies between
  a fifth and a half of the length, rounded down.\<close>

theorem corruptRandomItems_spec:
  assumes draws: "\<forall>k. is_draw (rnd k)"
    and nodes: "getAllNodes (heap st) (fileSystem st) = Some allNodes"
  shows "if filter (uncorrupted_file (heap st)) allNodes = []
    then corruptRandomItems rnd st = Some (Refused NothingToDo, st)
    else \<exists>chosen h'.
      corruptRandomItems rnd st = Some (Done, st\<lparr>heap := h'\<rparr>) \<and>
      length chosen = min (nat \<lfloor>fmul (rnd 0) 3\<rfloor> + 1) (length (filter (uncorrupted_file (heap st)) allNodes)) \<and>
      1 \<le> length chosen \<and> length chosen \<le> 3 \<and>
      (\<forall>a. count_list chosen a \<le> count_list (filter (uncorrupted_file (heap st)) allNodes) a) \<and>
      (\<forall>a. a \<notin> set chosen \<longrightarrow> h' a = heap st a) \<and>
      (\<forall>a\<in>set chosen. \<exists>n n' s s'.
         heap st a = Some n \<and> h' a = Some n' \<and>
         \<not> is_folder n \<and> \<not> n_corrupted n \<and> n_body n = Content s \<and>
         n' = n\<lparr>n_corrupted := True, n_body := Content s'\<rparr> \<and> length s' = length s \<and>
         n_corrupted n' \<and> n_size n' = n_size n \<and> n_permissions n' = n_permissions n) \<and>
      (distinct allNodes \<longrightarrow> distinct chosen \<and>
        (\<forall>a\<in>set chosen. \<exists>n s k.
           heap st a = Some n \<and> n_body n = Content s \<and>
           h' a = Some (n\<lparr>n_corrupted := True,
                          n_body := Content (apply_writes (writes_of rnd k s) s)\<rparr>) \<and>
           length (writes_of rnd k s) = writes_count (rnd k) (length s) \<and>
           (\<forall>p\<in>fst ` set (writes_of rnd k s). p < length s) \<and>
           differences s (apply_writes (writes_of rnd k s) s) \<le> writes_count (rnd k) (length s) \<and>
           (length s < 2 ^ 53 \<longrightarrow>
              length s div 5 \<le> writes_count (rnd k) (length s) \<and>
              writes_count (rnd k) (length s) \<le> length s div 2)))"
proof (cases "filter (uncorrupted_file (heap st)) allNodes = []")
  case True
  then show ?thesis using nodes by (simp add: corruptRandomItems_def)
next
  case False
  define fileNodes where "fileNodes = filter (uncorrupted_file (heap st)) allNodes"
  define m where "m = min (nat \<lfloor>fmul (rnd 0) 3\<rfloor> + 1) (length fileNodes)"
  from False have ne: "fileNodes \<noteq> []" by (simp add: fileNodes_def)
  have p1: "m \<le> length fileNodes" by (simp add: m_def)
  have unc: "\<And>a. a \<in> set fileNodes \<Longrightarrow> uncorrupted_file (heap st) a"
    by (simp add: fileNodes_def)
  have p2: "\<forall>a\<in>set fileNodes. \<exists>n s. heap st a = Some n \<and> n_body n = Content s"
  proof
    fix a assume "a \<in> set fileNodes"
    from unc[OF this] show "\<exists>n s. heap st a = Some n \<and> n_body n = Content s"
      by (auto simp: uncorrupted_file_def is_folder_def split: option.splits body.splits)
  qed
  from corruptLoop_facts[OF draws p1 p2, of 1 "[]"]
  obtain chosen h' corrupted' where r:
      "corruptLoop rnd 1 m fileNodes (heap st) [] = (Done, h', corrupted')"
      "length chosen = m"
      "\<forall>a. count_list chosen a \<le> count_list fileNodes a"
      "\<forall>a. a \<notin> set chosen \<longrightarrow> h' a = heap st a"
      "\<forall>a\<in>set chosen. corrupted_version (heap st a) (h' a)"
      "distinct fileNodes \<longrightarrow> (\<forall>a\<in>set chosen. corrupted_once rnd (heap st a) (h' a))"
    by (elim exE conjE) (rule that; assumption)
  have "corruptRandomItems rnd st =
      (case corruptLoop rnd 1 m fileNodes (heap st) [] of
         (result, h', corrupted) \<Rightarrow> Some (result, st\<lparr>heap := h'\<rparr>))"
    unfolding m_def fileNodes_def using nodes False
    by (simp add: corruptRandomItems_def Let_def)
  also have "\<dots> = Some (Done, st\<lparr>heap := h'\<rparr>)" unfolding r(1) by simp
  finally have run: "corruptRandomItems rnd st = Some (Done, st\<lparr>heap := h'\<rparr>)" .
  from draws have "is_draw (rnd 0)" by simp
  from fmul_draw_less[OF this, of 3] have "fmul (rnd 0) 3 < 3" by simp
  then have "\<lfloor>fmul (rnd 0) 3\<rfloor> < 3" by (simp add: floor_less_iff)
  then have "nat \<lfloor>fmul (rnd 0) 3\<rfloor> + 1 \<le> 3" by linarith
  then have m3: "m \<le> 3" by (simp add: m_def)
  from ne have m1: "1 \<le> m" by (cases fileNodes) (simp_all add: m_def)
  have sub: "\<And>a. a \<in> set chosen \<Longrightarrow> a \<in> set fileNodes"
  proof -
    fix a assume "a \<in> set chosen"
    then have "0 < count_list chosen a" by (simp only: count_list_pos)
    moreover from r(3) have "count_list chosen a \<le> count_list fileNodes a" by blast
    ultimately have "0 < count_list fileNodes a" by simp
    then show "a \<in> set fileNodes" by (simp only: count_list_pos)
  qed
  have each1: "\<forall>a\<in>set chosen. \<exists>n n' s s'.
         heap st a = Some n \<and> h' a = Some n' \<and>
         \<not> is_folder n \<and> \<not> n_corrupted n \<and> n_body n = Content s \<and>
         n' = n\<lparr>n_corrupted := True, n_body := Content s'\<rparr> \<and> length s' = length s \<and>
         n_corrupted n' \<and> n_size n' = n_size n \<and> n_permissions n' = n_permissions n"
  proof
    fix a assume a: "a \<in> set chosen"
    with r(5) have "corrupted_version (heap st a) (h' a)" by blast
    then obtain n s s' where c: "heap st a = Some n" "n_body n = Content s"
        "h' a = Some (n\<lparr>n_corrupted := True, n_body := Content s'\<rparr>)" "length s' = length s"
      unfolding corrupted_version_def by blast
    from unc[OF sub[OF a]] c(1) have u: "\<not> is_folder n" "\<not> n_corrupted n"
      by (simp_all add: uncorrupted_file_def)
    define n' where "n' = n\<lparr>n_corrupted := True, n_body := Content s'\<rparr>"
    have "heap st a = Some n \<and> h' a = Some n' \<and>
         \<not> is_folder n \<and> \<not> n_corrupted n \<and> n_body n = Content s \<and>
         n' = n\<lparr>n_corrupted := True, n_body := Content s'\<rparr> \<and> length s' = length s \<and>
         n_corrupted n' \<and> n_size n' = n_size n \<and> n_permissions n' = n_permissions n"
      using c u by (simp add: n'_def)
    then show "\<exists>n n' s s'.
         heap st a = Some n \<and> h' a = Some n' \<and>
         \<not> is_folder n \<and> \<not> n_corrupted n \<and> n_body n = Content s \<and>
         n' = n\<lparr>n_corrupted := True, n_body := Content s'\<rparr> \<and> length s' = length s \<and>
         n_corrupted n' \<and> n_size n' = n_size n \<and> n_permissions n' = n_permissions n" by blast
  qed
  have each2: "distinct allNodes \<longrightarrow> distinct chosen \<and>
        (\<forall>a\<in>set chosen. \<exists>n s k.
           heap st a = Some n \<and> n_body n = Content s \<and>
           h' a = Some (n\<lparr>n_corrupted := True,
                          n_body := Content (apply_writes (writes_of rnd k s) s)\<rparr>) \<and>
           length (writes_of rnd k s) = writes_count (rnd k) (length s) \<and>
           (\<forall>p\<in>fst ` set (writes_of rnd k s). p < length s) \<and>
           differences s (apply_writes (writes_of rnd k s) s) \<le> writes_count (rnd k) (length s) \<and>
           (length s < 2 ^ 53 \<longrightarrow>
              length s div 5 \<le> writes_count (rnd k) (length s) \<and>
              writes_count (rnd k) (length s) \<le> length s div 2))"
  proof (intro impI conjI ballI)
    assume "distinct allNodes"
    then have d: "distinct fileNodes" by (simp add: fileNodes_def)
    then have "\<forall>x. count_list fileNodes x \<le> 1" by (rule iffD1[OF distinct_count_list])
    with r(3) have "\<forall>x. count_list chosen x \<le> 1" by (meson order_trans)
    then show "distinct chosen" by (rule iffD2[OF distinct_count_list])
    fix a assume a: "a \<in> set chosen"
    with r(6) d have "corrupted_once rnd (heap st a) (h' a)" by blast
    then obtain n s k where c: "heap st a = Some n" "n_body n = Content s"
        "h' a = Some (n\<lparr>n_corrupted := True,
                          n_body := Content (apply_writes (writes_of rnd k s) s)\<rparr>)"
      unfolding corrupted_once_def by blast
    from draws have dk: "is_draw (rnd k)" by simp
    have w1: "length (writes_of rnd k s) = writes_count (rnd k) (length s)"
      by (simp add: writes_of_def)
    have w2: "\<forall>p\<in>fst ` set (writes_of rnd k s). p < length s"
      using writes_in_range[OF draws] by blast
    have w3: "differences s (apply_writes (writes_of rnd k s) s) \<le> writes_count (rnd k) (length s)"
      using differences_apply_writes[of s "writes_of rnd k s" s] by (simp add: w1)
    have w4: "length s < 2 ^ 53 \<longrightarrow>
              length s div 5 \<le> writes_count (rnd k) (length s) \<and>
              writes_count (rnd k) (length s) \<le> length s div 2"
      using writes_count_bounds[OF dk] by blast
    from c w1 w2 w3 w4 show "\<exists>n s k.
           heap st a = Some n \<and> n_body n = Content s \<and>
           h' a = Some (n\<lparr>n_corrupted := True,
                          n_body := Content (apply_writes (writes_of rnd k s) s)\<rparr>) \<and>
           length (writes_of rnd k s) = writes_count (rnd k) (length s) \<and>
           (\<forall>p\<in>fst ` set (writes_of rnd k s). p < length s) \<and>
           differences s (apply_writes (writes_of rnd k s) s) \<le> writes_count (rnd k) (length s) \<and>
           (length s < 2 ^ 53 \<longrightarrow>
              length s div 5 \<le> writes_count (rnd k) (length s) \<and>
              writes_count (rnd k) (length s) \<le> length s div 2)" by blast
  qed
  have "corruptRandomItems rnd st = Some (Done, st\<lparr>heap := h'\<rparr>) \<and>
      length chosen = min (nat \<lfloor>fmul (rnd 0) 3\<rfloor> + 1) (length fileNodes) \<and>
      1 \<le> length chosen \<and> length chosen \<le> 3 \<and>
      (\<forall>a. count_list chosen a \<le> count_list fileNodes a) \<and>
      (\<forall>a. a \<notin> set chosen \<longrightarrow> h' a = heap st a)"
    using run r(2,3,4) m1 m3 by (simp add: m_def)
  with each1 each2 False show ?thesis unfolding fileNodes_def by (simp only: if_False) blast
qed

theorem corruptRandomItems_spec_witness:
  "\<exists>h' n' k. corruptRandomItems (\<lambda>k. 0) st_ten = Some (Done, st_ten\<lparr>heap := h'\<rparr>) \<and>
     h' 0 = heap st_ten 0 \<and> h' 1 = Some n' \<and> n_corrupted n' \<and>
     n_size n' = 10 \<and> n_permissions n' = file_perms \<and>
     n_body n' = Content (apply_writes (writes_of (\<lambda>k. 0) k ''0123456789'') ''0123456789'') \<and>
     2 \<le> writes_count 0 10 \<and> writes_count 0 10 \<le> 5"
proof -
  have d: "\<forall>k. is_draw ((\<lambda>k. 0) k)" by (simp add: is_draw_def)
  have dist: "distinct [0, 1::addr]" by simp
  have ne: "filter (uncorrupted_file (heap st_ten)) [0, 1] \<noteq> []"
    unfolding st_ten_facts(2) by simp
  from corruptRandomItems_spec[OF d st_ten_facts(1), unfolded if_not_P[OF ne]]
  obtain chosen h' where r:
      "corruptRandomItems (\<lambda>k. 0) st_ten = Some (Done, st_ten\<lparr>heap := h'\<rparr>)"
      "1 \<le> length chosen"
      "\<forall>a. count_list chosen a \<le> count_list (filter (uncorrupted_file (heap st_ten)) [0, 1]) a"
      "\<forall>a. a \<notin> set chosen \<longrightarrow> h' a = heap st_ten a"
      "distinct [0, 1::addr] \<longrightarrow> distinct chosen \<and>
        (\<forall>a\<in>set chosen. \<exists>n s k.
           heap st_ten a = Some n \<and> n_body n = Content s \<and>
           h' a = Some (n\<lparr>n_corrupted := True,
                          n_body := Content (apply_writes (writes_of (\<lambda>k. 0) k s) s)\<rparr>) \<and>
           length (writes_of (\<lambda>k. 0) k s) = writes_count 0 (length s) \<and>
           (\<forall>p\<in>fst ` set (writes_of (\<lambda>k. 0) k s). p < length s) \<and>
           differences s (apply_writes (writes_of (\<lambda>k. 0) k s) s) \<le> writes_count 0 (length s) \<and>
           (length s < 2 ^ 53 \<longrightarrow>
              length s div 5 \<le> writes_count 0 (length s) \<and>
              writes_count 0 (length s) \<le> length s div 2))"
    by (elim exE conjE) (rule that; assumption)
  have zero: "0 \<notin> set chosen"
  proof
    assume "0 \<in> set chosen"
    then have "0 < count_list chosen 0" by (simp only: count_list_pos)
    moreover from r(3) have "count_list chosen 0 \<le> count_list [1::addr] 0"
      unfolding st_ten_facts(2) by blast
    ultimately show False by simp
  qed
  have one: "1 \<in> set chosen"
  proof -
    from r(2) obtain a rest where c: "chosen = a # rest" by (cases chosen) simp_all
    then have "0 < count_list chosen a" by simp
    moreover from r(3) have "count_list chosen a \<le> count_list [1::addr] a"
      unfolding st_ten_facts(2) by blast
    ultimately have "a = 1" by (simp split: if_splits)
    with c show ?thesis by simp
  qed
  from zero r(4) have z: "h' 0 = heap st_ten 0" by blast
  from r(5) dist one obtain n s k where n: "heap st_ten 1 = Some n" "n_body n = Content s"
      "h' 1 = Some (n\<lparr>n_corrupted := True,
                          n_body := Content (apply_writes (writes_of (\<lambda>k. 0) k s) s)\<rparr>)"
      "length s < 2 ^ 53 \<longrightarrow>
              length s div 5 \<le> writes_count 0 (length s) \<and>
              writes_count 0 (length s) \<le> length s div 2"
    by blast
  from n(1,2) st_ten_facts(3,4,5) have f: "n_size n = 10" "n_permissions n = file_perms"
      "s = ''0123456789''" by simp_all
  have len: "length ''0123456789'' = 10" by simp
  have b: "2 \<le> writes_count 0 10 \<and> writes_count 0 10 \<le> 5"
    using n(4) unfolding f(3) len by simp
  define n' where "n' = n\<lparr>n_corrupted := True,
      n_body := Content (apply_writes (writes_of (\<lambda>k. 0) k ''0123456789'') ''0123456789'')\<rparr>"
  have "h' 1 = Some n' \<and> n_corrupted n' \<and> n_size n' = 10 \<and> n_permissions n' = file_perms \<and>
      n_body n' = Content (apply_writes (writes_of (\<lambda>k. 0) k ''0123456789'') ''0123456789'')"
    using n(3) f by (simp add: n'_def)
  with r(1) z b show ?thesis by blast
qed

end
